theory Spec2Isabelle
  imports Complex_Main "HOL-Library.Word"
begin

section \<open>JavaScript values used by the services\<close>

text \<open>
  An error object as the code inspects it: \<open>error?.message\<close> and \<open>error?.status\<close>, each
  possibly undefined.
\<close>

record js_error =
  message :: "string option"
  status :: "string option"

text \<open>\<open>String.prototype.includes\<close>: substring test.\<close>

fun startsWith :: "string \<Rightarrow> string \<Rightarrow> bool" where
  "startsWith s [] = True"
| "startsWith [] (c # cs) = False"
| "startsWith (x # xs) (c # cs) = (x = c \<and> startsWith xs cs)"

fun str_includes :: "string \<Rightarrow> string \<Rightarrow> bool" where
  "str_includes [] sub = (sub = [])"
| "str_includes (x # xs) sub = (startsWith (x # xs) sub \<or> str_includes xs sub)"

text \<open>\<open>err?.message?.includes(sub)\<close>: undefined (falsy) when there is no message.\<close>

definition messageIncludes :: "js_error \<Rightarrow> string \<Rightarrow> bool" where
  "messageIncludes e sub = (case message e of None \<Rightarrow> False | Some m \<Rightarrow> str_includes m sub)"

section \<open>geminiService.ts: removeWhiteBackground\<close>

text \<open>
  \<open>ImageData\<close>: the pixel buffer is a \<open>Uint8ClampedArray\<close> of RGBA bytes. Reading a typed
  array out of range gives undefined, and \<open>undefined >= 245\<close> is false; writing out of
  range is ignored, as \<open>list_update\<close> does.
\<close>

record image_data =
  width :: nat
  height :: nat
  data :: "8 word list"

definition threshold :: "8 word" where
  "threshold = 245"

definition readAt :: "8 word list \<Rightarrow> nat \<Rightarrow> 8 word option" where
  "readAt d j = (if j < length d then Some (d ! j) else None)"

fun geThreshold :: "8 word option \<Rightarrow> bool" where
  "geThreshold None = False"
| "geThreshold (Some v) = (threshold \<le> v)"

text \<open>The loop \<open>for (let i = 0; i < data.length; i += 4)\<close>, started at any \<open>i\<close>.\<close>

function stripLoop :: "nat \<Rightarrow> 8 word list \<Rightarrow> 8 word list" where
  "stripLoop i d =
     (if i < length d then
        (let r = readAt d i; g = readAt d (i + 1); b = readAt d (i + 2)
         in stripLoop (i + 4)
              (if geThreshold r \<and> geThreshold g \<and> geThreshold b then d[i + 3 := 0] else d))
      else d)"
  by pat_completeness auto
termination
  by (relation "measure (\<lambda>(i, d). length d - i)") auto

declare stripLoop.simps [simp del]

text \<open>
  The browser's decoder, canvas context and PNG encoder are parameters: \<open>decode\<close> is None
  when \<open>img.onerror\<close> fires, \<open>hasCtx\<close> is false when \<open>getContext('2d')\<close> returns null.
\<close>

definition removeWhiteBackground ::
  "(string \<Rightarrow> image_data option) \<Rightarrow> bool \<Rightarrow> (image_data \<Rightarrow> string) \<Rightarrow> string \<Rightarrow> string" where
  "removeWhiteBackground decode hasCtx toDataURL dataUrl =
     (case decode dataUrl of
        None \<Rightarrow> dataUrl
      | Some img \<Rightarrow>
          if \<not> hasCtx then dataUrl
          else toDataURL (img\<lparr>data := stripLoop 0 (data img)\<rparr>))"

text \<open>Pixel \<open>p\<close> of a buffer has red, green and blue all at or above the threshold.\<close>

definition whitePixel :: "8 word list \<Rightarrow> nat \<Rightarrow> bool" where
  "whitePixel d p =
     (threshold \<le> d ! (4 * p) \<and> threshold \<le> d ! (4 * p + 1) \<and> threshold \<le> d ! (4 * p + 2))"

section \<open>geminiService.ts: withRetry\<close>

definition isRateLimit :: "js_error \<Rightarrow> bool" where
  "isRateLimit e = (messageIncludes e ''429'' \<or> status e = Some ''RESOURCE_EXHAUSTED'')"

definition isServerError :: "js_error \<Rightarrow> bool" where
  "isServerError e = (messageIncludes e ''500'' \<or> messageIncludes e ''Rpc failed'')"

text \<open>
  What a call of \<open>withRetry\<close> did: the value returned or the error thrown, how often it
  invoked \<open>fn\<close>, and the delays it slept, in order.
\<close>

record 'a retry_result =
  outcome :: "js_error + 'a"
  calls :: nat
  sleeps :: "real list"

text \<open>
  \<open>fn k\<close> is what the \<open>k\<close>-th invocation of the operation does (counted from 0) and
  \<open>random k\<close> the \<open>k\<close>-th value of \<open>Math.random()\<close>. Every iteration of the loop invokes
  \<open>fn\<close> once, so iteration \<open>i\<close> makes invocation \<open>i\<close>; the statement after the loop is the
  "final attempt".
\<close>

function retryLoop ::
  "(nat \<Rightarrow> js_error + 'a) \<Rightarrow> (nat \<Rightarrow> real) \<Rightarrow> nat \<Rightarrow> nat \<Rightarrow> real \<Rightarrow> real list
     \<Rightarrow> 'a retry_result" where
  "retryLoop fn random maxRetries i delay slept =
     (if i < maxRetries then
        (case fn i of
           Inr v \<Rightarrow> \<lparr>outcome = Inr v, calls = i + 1, sleeps = slept\<rparr>
         | Inl error \<Rightarrow>
             if (isRateLimit error \<or> isServerError error) \<and> int i < int maxRetries - 1 then
               retryLoop fn random maxRetries (i + 1) (delay * 2 + random i * 1000)
                 (slept @ [delay])
             else \<lparr>outcome = Inl error, calls = i + 1, sleeps = slept\<rparr>)
      else \<lparr>outcome = fn i, calls = i + 1, sleeps = slept\<rparr>)"
  by pat_completeness auto
termination
  by (relation "measure (\<lambda>(fn, random, maxRetries, i, delay, slept). maxRetries - i)") auto

declare retryLoop.simps [simp del]

definition withRetry ::
  "(nat \<Rightarrow> js_error + 'a) \<Rightarrow> (nat \<Rightarrow> real) \<Rightarrow> nat \<Rightarrow> real \<Rightarrow> 'a retry_result" where
  "withRetry fn random maxRetries initialDelay = retryLoop fn random maxRetries 0 initialDelay []"

text \<open>An error after which the loop may go round again.\<close>

definition retriable :: "js_error + 'a \<Rightarrow> bool" where
  "retriable r = (case r of Inl e \<Rightarrow> isRateLimit e \<or> isServerError e | Inr v \<Rightarrow> False)"

text \<open>The delays of \<open>n\<close> successive retries that start at iteration \<open>i\<close> with delay \<open>d\<close>.\<close>

fun backoff :: "(nat \<Rightarrow> real) \<Rightarrow> nat \<Rightarrow> real \<Rightarrow> nat \<Rightarrow> real list" where
  "backoff random i d 0 = []"
| "backoff random i d (Suc n) = d # backoff random (Suc i) (d * 2 + random i * 1000) n"

section \<open>geminiService.ts: generatePromptVariations\<close>

text \<open>
  The body that follows the AI call. \<open>text\<close> is \<open>response.text\<close> (possibly undefined),
  \<open>jsonParse\<close> is \<open>JSON.parse\<close>: None when it throws. The request fixes the response
  schema to an array of strings, so a parsed payload is a list of strings. \<open>count\<close> is a
  natural number, the \<open>count \<ge> 1\<close> of a VariationRequest or 0.
\<close>

definition payload :: "string option \<Rightarrow> string" where
  "payload text = (case text of None \<Rightarrow> ''[]'' | Some t \<Rightarrow> if t = [] then ''[]'' else t)"

definition parseVariations ::
  "(string \<Rightarrow> string list option) \<Rightarrow> string \<Rightarrow> nat \<Rightarrow> string option \<Rightarrow> string list" where
  "parseVariations jsonParse basePrompt count text =
     (case jsonParse (payload text) of
        Some variations \<Rightarrow> if length variations > 0 then variations else [basePrompt]
      | None \<Rightarrow> replicate count basePrompt)"

text \<open>
  \<open>aiCall k\<close> is the \<open>k\<close>-th call of \<open>ai.models.generateContent\<close>: the error it throws or the
  response's text. The retry wrapper is called with its defaults.
\<close>

definition generatePromptVariations ::
  "(nat \<Rightarrow> js_error + string option) \<Rightarrow> (string \<Rightarrow> string list option) \<Rightarrow> (nat \<Rightarrow> real)
     \<Rightarrow> string \<Rightarrow> nat \<Rightarrow> string list retry_result" where
  "generatePromptVariations aiCall jsonParse random basePrompt count =
     withRetry
       (\<lambda>k. case aiCall k of
               Inl e \<Rightarrow> Inl e
             | Inr text \<Rightarrow> Inr (parseVariations jsonParse basePrompt count text))
       random 5 4000"

section \<open>App: handleGenerate\<close>

datatype AssetType = STICKER | PNG_ELEMENT | GRAPHIC | SHAPE_3D | MOCKUP | PHOTO | STAMP | GIF

record GeneratedAsset =
  asset_id :: string
  url :: string
  asset_type :: AssetType
  prompt :: string
  timestamp :: nat
  isVideo :: bool

text \<open>
  What the orchestrator calls and cannot compute: the AI text call, \<open>JSON.parse\<close>,
  \<open>Math.random\<close> of the retry wrapper, the result of \<open>generateSingleAsset(prompt, type)\<close>
  at loop index \<open>i\<close> (the URL, or the error it throws after its own retries), and the
  identifier and timestamp drawn for the asset of index \<open>i\<close>.
\<close>

record world =
  aiCall :: "nat \<Rightarrow> js_error + string option"
  jsonParse :: "string \<Rightarrow> string list option"
  random :: "nat \<Rightarrow> real"
  generateSingleAsset :: "nat \<Rightarrow> string \<Rightarrow> AssetType \<Rightarrow> js_error + string"
  randomId :: "nat \<Rightarrow> string"
  dateNow :: "nat \<Rightarrow> nat"

text \<open>
  The component's state (\<open>assets\<close>, \<open>isGenerating\<close>, \<open>progress\<close>, \<open>error\<close>), the local
  \<open>newAssets\<close> of a run, and a record of what the run did: each call of
  \<open>generateSingleAsset\<close> (index and prompt), each value given to \<open>setAssets\<close> and to
  \<open>setProgress\<close>, and each pacing delay.
\<close>

record run_state =
  assets :: "GeneratedAsset list"
  isGenerating :: bool
  progress :: int
  error :: "string option"
  newAssets :: "GeneratedAsset list"
  fetchLog :: "(nat \<times> string) list"
  assetsLog :: "GeneratedAsset list list"
  progressLog :: "int list"
  sleepLog :: "nat list"

definition batchSize :: nat where
  "batchSize = 1"

subsection \<open>Numbers\<close>

text \<open>
  A JavaScript number is an IEEE 754 double. A finite double is modelled by the rational
  it denotes, and an arithmetic operation by the exact operation followed by \<open>toDouble\<close>:
  rounding to the nearest double (a significand of 53 bits), ties to the even
  significand. The exponent is not bounded in the model; the quotient and the product
  computed below lie between \<open>1 / totalCount\<close> and 101, far from overflow and underflow
  for the length of any array. The loop index, the batch length and the array length
  are integers below \<open>2 ^ 53\<close> and so are doubles themselves.
\<close>

definition roundTiesToEven :: "rat \<Rightarrow> int" where
  "roundTiesToEven y =
     (let f = \<lfloor>y\<rfloor>; r = y - of_int f
      in if r < 1 / 2 then f else if 1 / 2 < r then f + 1 else if even f then f else f + 1)"

text \<open>The exponent \<open>e\<close> with \<open>2 ^ e \<le> x < 2 ^ (e + 1)\<close>, for \<open>x\<close> below 1 and from 1 on.\<close>

function binadeBelow :: "rat \<Rightarrow> int" where
  "binadeBelow x = (if 0 < x \<and> x < 1 then binadeBelow (2 * x) - 1 else 0)"
  by pat_completeness auto
termination
proof (relation "measure (\<lambda>x. nat \<lceil>1 / x\<rceil>)")
  show "wf (measure (\<lambda>x. nat \<lceil>1 / x\<rceil>))" by simp
next
  fix x :: rat assume a: "0 < x \<and> x < 1"
  have "1 < 1 / x" using a by simp
  then have c: "2 \<le> \<lceil>1 / x\<rceil>" by linarith
  have "1 / (2 * x) = (1 / x) / 2" by simp
  also have "\<dots> \<le> of_int \<lceil>1 / x\<rceil> / 2" by (simp add: divide_right_mono)
  finally have "\<lceil>1 / (2 * x)\<rceil> \<le> \<lceil>(of_int \<lceil>1 / x\<rceil> :: rat) / 2\<rceil>" by (rule ceiling_mono)
  also have "\<dots> < \<lceil>1 / x\<rceil>" using c by linarith
  finally show "(2 * x, x) \<in> measure (\<lambda>x. nat \<lceil>1 / x\<rceil>)" using c a by simp
qed

function binadeAbove :: "rat \<Rightarrow> int" where
  "binadeAbove x = (if 2 \<le> x then binadeAbove (x / 2) + 1 else 0)"
  by pat_completeness auto
termination
proof (relation "measure (\<lambda>x. nat \<lfloor>x\<rfloor>)")
  show "wf (measure (\<lambda>x. nat \<lfloor>x\<rfloor>))" by simp
next
  fix x :: rat assume a: "2 \<le> x"
  then have c: "2 \<le> \<lfloor>x\<rfloor>" by linarith
  have "\<lfloor>x / 2\<rfloor> < \<lfloor>x\<rfloor>" using a c by linarith
  then show "(x / 2, x) \<in> measure (\<lambda>x. nat \<lfloor>x\<rfloor>)" using c by simp
qed

declare binadeBelow.simps [simp del] binadeAbove.simps [simp del]

definition binade :: "rat \<Rightarrow> int" where
  "binade x = (if x < 1 then binadeBelow x else binadeAbove x)"

definition toDouble :: "rat \<Rightarrow> rat" where
  "toDouble x =
     (if x \<le> 0 then 0
      else (let ulp = 2 powi (binade x - 52) in of_int (roundTiesToEven (x / ulp)) * ulp))"

text \<open>
  \<open>Math.round\<close> of a double: the nearest integer, halves upwards. It is exact, and so is
  \<open>Math.min\<close>.
\<close>

definition Math_round :: "rat \<Rightarrow> int" where
  "Math_round x = \<lfloor>x + 1 / 2\<rfloor>"

text \<open>
  \<open>Math.min(100, Math.round(((i + currentBatch.length) / variations.length) * 100))\<close>: a
  division and a multiplication of doubles, each rounded. The loop calls it with
  \<open>i < variations.length\<close> only, so the divisor is not 0.
\<close>

definition progressValue :: "nat \<Rightarrow> nat \<Rightarrow> nat \<Rightarrow> int" where
  "progressValue i batchLength totalCount =
     min 100
       (Math_round (toDouble (toDouble (of_nat (i + batchLength) / of_nat totalCount) * 100)))"

text \<open>
  The callback mapped over the batch: the asset, null (None) after a failure whose
  message lacks "429", or that failure thrown again.
\<close>

definition fetchVariation ::
  "world \<Rightarrow> AssetType \<Rightarrow> nat \<Rightarrow> string \<Rightarrow> js_error + GeneratedAsset option" where
  "fetchVariation w type i p =
     (case generateSingleAsset w i p type of
        Inr u \<Rightarrow>
          Inr (Some \<lparr>asset_id = randomId w i, url = u, asset_type = type, prompt = p,
                     timestamp = dateNow w i, isVideo = (type = GIF)\<rparr>)
      | Inl err \<Rightarrow> if messageIncludes err ''429'' then Inl err else Inr None)"

text \<open>
  One iteration of the loop over the variations. The batch size is the constant 1, so
  \<open>currentBatch\<close> is the one prompt \<open>variations ! i\<close> and \<open>Promise.all\<close> waits for one
  promise. The result is the error thrown out of the loop, if any, and the state.
\<close>

definition processItem ::
  "world \<Rightarrow> AssetType \<Rightarrow> string list \<Rightarrow> nat \<Rightarrow> run_state \<Rightarrow> js_error option \<times> run_state" where
  "processItem w type variations i st =
     (let currentBatch = take batchSize (drop i variations);
          p = variations ! i;
          st1 = st\<lparr>fetchLog := fetchLog st @ [(i, p)]\<rparr>
      in case fetchVariation w type i p of
           Inl batchErr \<Rightarrow>
             if messageIncludes batchErr ''429'' then (Some batchErr, st1)
             else (None,
                   if i + batchSize < length variations
                   then st1\<lparr>sleepLog := sleepLog st1 @ [4000]\<rparr> else st1)
         | Inr r \<Rightarrow>
             (let successful = (case r of None \<Rightarrow> [] | Some a \<Rightarrow> [a]);
                  pv = progressValue i (length currentBatch) (length variations);
                  st2 = st1\<lparr>newAssets := newAssets st1 @ successful,
                            assets := successful @ assets st1,
                            assetsLog := assetsLog st1 @ [successful @ assets st1],
                            progress := pv,
                            progressLog := progressLog st1 @ [pv]\<rparr>
              in (None,
                  if i + batchSize < length variations
                  then st2\<lparr>sleepLog := sleepLog st2 @ [4000]\<rparr> else st2)))"

text \<open>\<open>for (let i = 0; i < variations.length; i += batchSize)\<close>, started at any \<open>i\<close>.\<close>

function handleLoop ::
  "world \<Rightarrow> AssetType \<Rightarrow> string list \<Rightarrow> nat \<Rightarrow> run_state \<Rightarrow> js_error option \<times> run_state" where
  "handleLoop w type variations i st =
     (if i < length variations then
        (case processItem w type variations i st of
           (Some err, st') \<Rightarrow> (Some err, st')
         | (None, st') \<Rightarrow> handleLoop w type variations (i + batchSize) st')
      else (None, st))"
  by pat_completeness auto
termination
  by (relation "measure (\<lambda>(w, type, variations, i, st). length variations - i)")
     (auto simp: batchSize_def)

declare handleLoop.simps [simp del]

definition authMessage :: string where
  "authMessage = ''API Authentication Error. Re-selecting your API key might help.''"

definition rateLimitMessage :: string where
  "rateLimitMessage =
     ''Rate limit exceeded. The API is temporarily blocking requests. Please wait 1-2 minutes before trying again.''"

definition defaultMessage :: string where
  "defaultMessage = ''Failed to forge elements. Please try again.''"

definition emptyRunError :: js_error where
  "emptyRunError =
     \<lparr>message = Some ''Could not forge any elements. Service might be busy. Try again in a few moments.'',
      status = None\<rparr>"

text \<open>
  The \<open>catch\<close> block of \<open>handleGenerate\<close>. The call of \<open>aistudio.openSelectKey\<close> in the
  first branch changes nothing of the state and its failure is swallowed.
\<close>

definition reportError :: "js_error \<Rightarrow> run_state \<Rightarrow> run_state" where
  "reportError err st =
     (if messageIncludes err ''Requested entity was not found'' then
        st\<lparr>error := Some authMessage\<rparr>
      else if messageIncludes err ''429'' \<or> status err = Some ''RESOURCE_EXHAUSTED'' then
        st\<lparr>error := Some rateLimitMessage\<rparr>
      else
        st\<lparr>error := Some (case message err of
                            None \<Rightarrow> defaultMessage
                          | Some m \<Rightarrow> if m = [] then defaultMessage else m)\<rparr>)"

text \<open>The \<open>finally\<close> block.\<close>

definition finish :: "run_state \<Rightarrow> run_state" where
  "finish st = st\<lparr>isGenerating := False, progress := 0, progressLog := progressLog st @ [0]\<rparr>"

text \<open>The state once the three setters at the head of \<open>handleGenerate\<close> have run.\<close>

definition begin_run :: "run_state \<Rightarrow> run_state" where
  "begin_run st =
     st\<lparr>isGenerating := True, progress := 0, error := None, newAssets := [],
        progressLog := progressLog st @ [0]\<rparr>"

text \<open>The sequence the Variation Expander returns to the run, or the error it throws.\<close>

definition expanded :: "world \<Rightarrow> string \<Rightarrow> js_error + string list" where
  "expanded w basePrompt =
     outcome (generatePromptVariations (aiCall w) (jsonParse w) (random w) basePrompt 20)"

definition handleGenerate :: "world \<Rightarrow> string \<Rightarrow> AssetType \<Rightarrow> run_state \<Rightarrow> run_state" where
  "handleGenerate w basePrompt type st =
     finish
       (case expanded w basePrompt of
          Inl err \<Rightarrow> reportError err (begin_run st)
        | Inr variations \<Rightarrow>
            (case handleLoop w type variations 0 (begin_run st) of
               (Some err, st') \<Rightarrow> reportError err st'
             | (None, st') \<Rightarrow>
                 if length (newAssets st') = 0 then reportError emptyRunError st' else st'))"

text \<open>A component that has not run yet.\<close>

definition initial :: run_state where
  "initial =
     \<lparr>assets = [], isGenerating = False, progress = 0, error = None, newAssets = [],
      fetchLog = [], assetsLog = [], progressLog = [], sleepLog = []\<rparr>"

subsection \<open>Notions for stating properties of a run\<close>

text \<open>The fetch of item \<open>j\<close> throws an error that stops the loop.\<close>

definition abortsAt :: "world \<Rightarrow> AssetType \<Rightarrow> string list \<Rightarrow> nat \<Rightarrow> bool" where
  "abortsAt w type variations j =
     (case generateSingleAsset w j (variations ! j) type of
        Inl e \<Rightarrow> messageIncludes e ''429''
      | Inr u \<Rightarrow> False)"

text \<open>The asset that item \<open>j\<close> contributes, if its fetch succeeds.\<close>

definition assetOf :: "world \<Rightarrow> AssetType \<Rightarrow> string list \<Rightarrow> nat \<Rightarrow> GeneratedAsset option" where
  "assetOf w type variations j =
     (case fetchVariation w type j (variations ! j) of Inl e \<Rightarrow> None | Inr r \<Rightarrow> r)"

text \<open>The state after items \<open>i, \<dots>, m - 1\<close> have been processed without a stop.\<close>

definition advance ::
  "world \<Rightarrow> AssetType \<Rightarrow> string list \<Rightarrow> nat \<Rightarrow> nat \<Rightarrow> run_state \<Rightarrow> run_state" where
  "advance w type variations i m st =
     foldl (\<lambda>s k. snd (processItem w type variations k s)) st [i..<m]"


text \<open>The assets that item \<open>j\<close> adds to the collections: one or none.\<close>

definition got :: "world \<Rightarrow> AssetType \<Rightarrow> string list \<Rightarrow> nat \<Rightarrow> GeneratedAsset list" where
  "got w type variations j = (case assetOf w type variations j of None \<Rightarrow> [] | Some a \<Rightarrow> [a])"

text \<open>
  The progress the code computes once \<open>k\<close> of \<open>n\<close> items are processed; the percentage
  \<open>round (100 * k / n)\<close> capped at 100, in exact arithmetic; and the case in which
  \<open>100 * k / n\<close> lies halfway between two integers.
\<close>

definition doublePercent :: "nat \<Rightarrow> nat \<Rightarrow> int" where
  "doublePercent k n = min 100 (Math_round (toDouble (toDouble (of_nat k / of_nat n) * 100)))"

definition exactPercent :: "nat \<Rightarrow> nat \<Rightarrow> int" where
  "exactPercent k n = min 100 (round (100 * of_nat k / of_nat n :: rat))"

definition halfway :: "nat \<Rightarrow> nat \<Rightarrow> bool" where
  "halfway k n = (2 * n dvd 200 * k + n)"

subsection \<open>Sample inputs\<close>

definition tooMany :: js_error where
  "tooMany = \<lparr>message = Some ''got status: 429 Too Many Requests'', status = None\<rparr>"

definition badRequest :: js_error where
  "badRequest = \<lparr>message = Some ''got status: 400 Bad Request'', status = None\<rparr>"

definition exhausted :: js_error where
  "exhausted = \<lparr>message = Some ''Quota exceeded'', status = Some ''RESOURCE_EXHAUSTED''\<rparr>"

definition notFound429 :: js_error where
  "notFound429 =
     \<lparr>message = Some ''got status: 429 Too Many Requests. Requested entity was not found.'',
      status = None\<rparr>"

text \<open>
  A world whose AI call answers at once with a payload that parses to \<open>vs\<close> (or does not
  parse), and whose fetch of item \<open>i\<close> ends as \<open>fetch i\<close> says.
\<close>

definition sampleWorld :: "string list option \<Rightarrow> (nat \<Rightarrow> js_error + string) \<Rightarrow> world" where
  "sampleWorld vs fetch =
     \<lparr>aiCall = (\<lambda>k. Inr (Some ''payload'')), jsonParse = (\<lambda>s. vs), random = (\<lambda>k. 1 / 2),
      generateSingleAsset = (\<lambda>i p t. fetch i), randomId = (\<lambda>i. ''id''), dateNow = (\<lambda>i. i)\<rparr>"

definition fetch_c2 :: "nat \<Rightarrow> js_error + string" where
  "fetch_c2 i = (if i = 1 then Inl notFound429 else Inr ''url'')"

definition world_c2 :: world where
  "world_c2 = sampleWorld (Some [''a'', ''b'', ''c'']) fetch_c2"

definition fetch_c2w :: "nat \<Rightarrow> js_error + string" where
  "fetch_c2w i = (if i = 1 then Inl tooMany else Inr ''url'')"

definition world_c2w :: world where
  "world_c2w = sampleWorld (Some [''a'', ''b'', ''c'']) fetch_c2w"

definition fetch_c2x :: "nat \<Rightarrow> js_error + string" where
  "fetch_c2x i = (if i = 0 then Inl exhausted else Inr ''url'')"

definition world_c2x :: world where
  "world_c2x = sampleWorld (Some [''a'', ''b'']) fetch_c2x"


definition fetch_c3w :: "nat \<Rightarrow> js_error + string" where
  "fetch_c3w i = (if i = 0 then Inl badRequest else Inr ''url'')"

definition world_c3w :: world where
  "world_c3w = sampleWorld (Some [''a'', ''b'']) fetch_c3w"

definition fetch_c6 :: "nat \<Rightarrow> js_error + string" where
  "fetch_c6 i = (if i = 0 then Inl badRequest else Inr ''url'')"

definition world_c6 :: world where
  "world_c6 = sampleWorld (Some [''a'', ''b'']) fetch_c6"

definition state_c6 :: run_state where
  "state_c6 = advance world_c6 STICKER [''a'', ''b''] 0 2 (begin_run initial)"

definition fetch_ok :: "nat \<Rightarrow> js_error + string" where
  "fetch_ok i = Inr ''url''"

definition world_c5 :: world where
  "world_c5 = sampleWorld (Some [''a'', ''b'', ''c'']) fetch_ok"

definition world_c5x :: world where
  "world_c5x = sampleWorld (Some (replicate 40 ''x'')) fetch_ok"

definition state_c5x :: run_state where
  "state_c5x = advance world_c5x STICKER (replicate 40 ''x'') 0 23 (begin_run initial)"

definition world_c7 :: world where
  "world_c7 = sampleWorld (Some (replicate 21 ''x'')) fetch_ok"

definition world_c7w :: world where
  "world_c7w = sampleWorld (Some [''a'', ''b'']) fetch_ok"

definition fetch_c8 :: "nat \<Rightarrow> js_error + string" where
  "fetch_c8 i = (if i = 1 then Inl badRequest else Inr ''url'')"

definition world_c8 :: world where
  "world_c8 = sampleWorld (Some [''a'', ''b'', ''c'']) fetch_c8"

definition fetch_c6w :: "nat \<Rightarrow> js_error + string" where
  "fetch_c6w i = (if i = 0 then Inl badRequest else Inr ''url'')"

definition world_c6w :: world where
  "world_c6w = sampleWorld (Some [''a'', ''b'']) fetch_c6w"

definition world_c1 :: world where
  "world_c1 = sampleWorld (Some []) fetch_ok"

definition world_c1w :: world where
  "world_c1w = sampleWorld None fetch_ok"

definition aiSecond :: "nat \<Rightarrow> js_error + string option" where
  "aiSecond k = (if k = 0 then Inl tooMany else Inr None)"

definition parseEmpty :: "string \<Rightarrow> string list option" where
  "parseEmpty s = (if s = ''[]'' then Some [] else None)"

definition flaky :: "nat \<Rightarrow> js_error + nat" where
  "flaky k = (if k < 2 then Inl tooMany else Inl badRequest)"

definition half :: "nat \<Rightarrow> real" where
  "half k = 1 / 2"

section \<open>The background stripper\<close>

lemma stripLoop_length: "length (stripLoop i d) = length d"
proof (induction i d rule: stripLoop.induct)
  case (1 i d)
  show ?case
  proof (cases "i < length d")
    case True
    then show ?thesis using 1 by (subst stripLoop.simps) (simp add: Let_def)
  next
    case False
    then show ?thesis by (subst stripLoop.simps) simp
  qed
qed

text \<open>
  Started at pixel \<open>q\<close> of a buffer of \<open>n\<close> whole pixels, the loop leaves the colour
  channels of every pixel alone and clears the alpha of the white pixels from \<open>q\<close> on.
\<close>

lemma stripLoop_pixel:
  "length d = 4 * n \<Longrightarrow> i = 4 * q \<Longrightarrow> p < n \<Longrightarrow>
   stripLoop i d ! (4 * p) = d ! (4 * p) \<and>
   stripLoop i d ! (4 * p + 1) = d ! (4 * p + 1) \<and>
   stripLoop i d ! (4 * p + 2) = d ! (4 * p + 2) \<and>
   stripLoop i d ! (4 * p + 3) = (if q \<le> p \<and> whitePixel d p then 0 else d ! (4 * p + 3))"
proof (induction i d arbitrary: q rule: stripLoop.induct)
  case (1 i d)
  show ?case
  proof (cases "i < length d")
    case False
    then have "n \<le> q" using 1 by simp
    then show ?thesis using False 1(4) by (subst (1 2 3 4) stripLoop.simps) simp
  next
    case True
    define d' where
      "d' = (if geThreshold (readAt d i) \<and> geThreshold (readAt d (i + 1)) \<and>
                geThreshold (readAt d (i + 2))
             then d[i + 3 := 0] else d)"
    have unf: "stripLoop i d = stripLoop (i + 4) d'"
      using True by (subst stripLoop.simps) (simp add: Let_def d'_def)
    have len: "length d' = 4 * n" using 1(2) by (simp add: d'_def)
    have qn: "q < n" using True 1 by simp
    have w: "(geThreshold (readAt d i) \<and> geThreshold (readAt d (i + 1)) \<and>
              geThreshold (readAt d (i + 2))) = whitePixel d q"
      using qn 1(2,3) by (simp add: readAt_def whitePixel_def)
    have IH: "stripLoop (i + 4) d' ! (4 * p) = d' ! (4 * p) \<and>
        stripLoop (i + 4) d' ! (4 * p + 1) = d' ! (4 * p + 1) \<and>
        stripLoop (i + 4) d' ! (4 * p + 2) = d' ! (4 * p + 2) \<and>
        stripLoop (i + 4) d' ! (4 * p + 3) =
          (if Suc q \<le> p \<and> whitePixel d' p then 0 else d' ! (4 * p + 3))"
      using 1(1)[OF True refl refl refl, of "Suc q"] len 1(3,4)
      unfolding d'_def[symmetric] by simp
    have same: "d' ! (4 * p) = d ! (4 * p)" "d' ! (4 * p + 1) = d ! (4 * p + 1)"
      "d' ! (4 * p + 2) = d ! (4 * p + 2)"
    proof -
      have ne: "i + 3 \<noteq> 4 * p" "i + 3 \<noteq> 4 * p + 1" "i + 3 \<noteq> 4 * p + 2"
        using 1(3) by presburger+
      show "d' ! (4 * p) = d ! (4 * p)" "d' ! (4 * p + 1) = d ! (4 * p + 1)"
        "d' ! (4 * p + 2) = d ! (4 * p + 2)"
        using ne by (simp_all add: d'_def)
    qed
    have wp: "whitePixel d' p = whitePixel d p"
      using same by (simp add: whitePixel_def)
    have a: "d' ! (4 * p + 3) = (if p = q \<and> whitePixel d q then 0 else d ! (4 * p + 3))"
    proof -
      have d'_eq: "d' = (if whitePixel d q then d[i + 3 := 0] else d)"
        unfolding d'_def w ..
      have "i + 3 < length d" using qn 1(2,3) by simp
      moreover have "(i + 3 = 4 * p + 3) = (p = q)" using 1(3) by auto
      ultimately show ?thesis using 1(3) by (auto simp add: d'_eq nth_list_update)
    qed
    show ?thesis unfolding unf using IH same wp a by (auto simp: le_Suc_eq not_less_eq_eq)
  qed
qed

text \<open>
  C4. When the image does not decode (or the canvas gives no context) the data URL comes
  back as it was given. When it decodes to a buffer of \<open>width * height\<close> RGBA pixels, the
  result is the encoding of the image whose buffer is the loop's output: the buffer keeps
  its length, every pixel keeps its red, green and blue, and a pixel's alpha is 0 if its
  red, green and blue are all at least 245 and is what it was otherwise. So a pixel
  (255, 255, 255) gets alpha 0 and a pixel (0, 0, 0) keeps its alpha.
\<close>

theorem removeWhiteBackground_spec:
  "(decode dataUrl = None \<longrightarrow> removeWhiteBackground decode hasCtx toDataURL dataUrl = dataUrl) \<and>
   (\<not> hasCtx \<longrightarrow> removeWhiteBackground decode hasCtx toDataURL dataUrl = dataUrl) \<and>
   (decode dataUrl = Some img \<and> length (data img) = 4 * (width img * height img) \<and>
    p < width img * height img \<longrightarrow>
      (let d = data img; d' = stripLoop 0 d in
         removeWhiteBackground decode True toDataURL dataUrl = toDataURL (img\<lparr>data := d'\<rparr>) \<and>
         length d' = length d \<and>
         d' ! (4 * p) = d ! (4 * p) \<and>
         d' ! (4 * p + 1) = d ! (4 * p + 1) \<and>
         d' ! (4 * p + 2) = d ! (4 * p + 2) \<and>
         d' ! (4 * p + 3) =
           (if 245 \<le> d ! (4 * p) \<and> 245 \<le> d ! (4 * p + 1) \<and> 245 \<le> d ! (4 * p + 2)
            then 0 else d ! (4 * p + 3)) \<and>
         (d ! (4 * p) = 255 \<and> d ! (4 * p + 1) = 255 \<and> d ! (4 * p + 2) = 255
            \<longrightarrow> d' ! (4 * p + 3) = 0) \<and>
         (d ! (4 * p) = 0 \<and> d ! (4 * p + 1) = 0 \<and> d ! (4 * p + 2) = 0
            \<longrightarrow> d' ! (4 * p + 3) = d ! (4 * p + 3))))"
proof (intro conjI impI)
  assume "decode dataUrl = None"
  then show "removeWhiteBackground decode hasCtx toDataURL dataUrl = dataUrl"
    by (simp add: removeWhiteBackground_def)
next
  assume "\<not> hasCtx"
  then show "removeWhiteBackground decode hasCtx toDataURL dataUrl = dataUrl"
    by (simp add: removeWhiteBackground_def split: option.splits)
next
  assume h: "decode dataUrl = Some img \<and> length (data img) = 4 * (width img * height img) \<and>
    p < width img * height img"
  have px: "stripLoop 0 (data img) ! (4 * p) = data img ! (4 * p) \<and>
      stripLoop 0 (data img) ! (4 * p + 1) = data img ! (4 * p + 1) \<and>
      stripLoop 0 (data img) ! (4 * p + 2) = data img ! (4 * p + 2) \<and>
      stripLoop 0 (data img) ! (4 * p + 3) =
        (if whitePixel (data img) p then 0 else data img ! (4 * p + 3))"
    using stripLoop_pixel[of "data img" "width img * height img" 0 0 p] h by simp
  show "let d = data img; d' = stripLoop 0 d in
         removeWhiteBackground decode True toDataURL dataUrl = toDataURL (img\<lparr>data := d'\<rparr>) \<and>
         length d' = length d \<and>
         d' ! (4 * p) = d ! (4 * p) \<and>
         d' ! (4 * p + 1) = d ! (4 * p + 1) \<and>
         d' ! (4 * p + 2) = d ! (4 * p + 2) \<and>
         d' ! (4 * p + 3) =
           (if 245 \<le> d ! (4 * p) \<and> 245 \<le> d ! (4 * p + 1) \<and> 245 \<le> d ! (4 * p + 2)
            then 0 else d ! (4 * p + 3)) \<and>
         (d ! (4 * p) = 255 \<and> d ! (4 * p + 1) = 255 \<and> d ! (4 * p + 2) = 255
            \<longrightarrow> d' ! (4 * p + 3) = 0) \<and>
         (d ! (4 * p) = 0 \<and> d ! (4 * p + 1) = 0 \<and> d ! (4 * p + 2) = 0
            \<longrightarrow> d' ! (4 * p + 3) = d ! (4 * p + 3))"
    using h px
    by (simp add: Let_def removeWhiteBackground_def stripLoop_length whitePixel_def
        threshold_def)
qed

theorem removeWhiteBackground_spec_witness:
  "removeWhiteBackground (\<lambda>s. None) True (\<lambda>i. ''png'') ''broken'' = ''broken'' \<and>
   removeWhiteBackground (\<lambda>s. Some \<lparr>width = 2, height = 1, data = [255, 250, 245, 9, 0, 0, 0, 7]\<rparr>)
     False (\<lambda>i. ''png'') ''img'' = ''img'' \<and>
   stripLoop 0 [255, 250, 245, 9, 0, 0, 0, 7] ! 3 = 0 \<and>
   stripLoop 0 [255, 250, 245, 9, 0, 0, 0, 7] ! 7 = 7 \<and>
   stripLoop 0 [255, 250, 245, 9, 0, 0, 0, 7] ! 4 = 0"
  using
    removeWhiteBackground_spec[of "\<lambda>s. None" "''broken''" True "\<lambda>i. ''png''"]
    removeWhiteBackground_spec[of
      "\<lambda>s. Some \<lparr>width = 2, height = 1, data = [255, 250, 245, 9, 0, 0, 0, 7]\<rparr>"
      "''img''" False "\<lambda>i. ''png''"
      "\<lparr>width = 2, height = 1, data = [255, 250, 245, 9, 0, 0, 0, 7]\<rparr>" 0]
    removeWhiteBackground_spec[of
      "\<lambda>s. Some \<lparr>width = 2, height = 1, data = [255, 250, 245, 9, 0, 0, 0, 7]\<rparr>"
      "''img''" False "\<lambda>i. ''png''"
      "\<lparr>width = 2, height = 1, data = [255, 250, 245, 9, 0, 0, 0, 7]\<rparr>" 1]
  by (simp add: Let_def)

section \<open>The retry wrapper\<close>

lemma retryLoop_props:
  "i < maxRetries \<Longrightarrow>
   (let r = retryLoop fn rnd maxRetries i delay slept in
      i < calls r \<and> calls r \<le> maxRetries \<and>
      outcome r = fn (calls r - 1) \<and>
      (\<forall>k. i \<le> k \<and> k + 1 < calls r \<longrightarrow> retriable (fn k)) \<and>
      sleeps r = slept @ backoff rnd i delay (calls r - 1 - i) \<and>
      (calls r < maxRetries \<longrightarrow> \<not> retriable (fn (calls r - 1))))"
proof (induction fn rnd maxRetries i delay slept rule: retryLoop.induct)
  case (1 fn rnd maxRetries i delay slept)
  show ?case
  proof (cases "fn i")
    case (Inr v)
    then show ?thesis using 1(2)
      by (subst retryLoop.simps) (auto simp add: Let_def retriable_def)
  next
    case (Inl e)
    show ?thesis
    proof (cases "(isRateLimit e \<or> isServerError e) \<and> int i < int maxRetries - 1")
      case False
      then show ?thesis using 1(2) Inl
        by (subst retryLoop.simps) (auto simp add: Let_def retriable_def)
    next
      case True
      then have lt: "i + 1 < maxRetries" by linarith
      have unf: "retryLoop fn rnd maxRetries i delay slept =
          retryLoop fn rnd maxRetries (i + 1) (delay * 2 + rnd i * 1000) (slept @ [delay])"
        using True Inl 1(2) by (subst retryLoop.simps) simp
      define r where "r = retryLoop fn rnd maxRetries (i + 1) (delay * 2 + rnd i * 1000) (slept @ [delay])"
      have IH: "i + 1 < calls r \<and> calls r \<le> maxRetries \<and>
      outcome r = fn (calls r - 1) \<and>
      (\<forall>k. i + 1 \<le> k \<and> k + 1 < calls r \<longrightarrow> retriable (fn k)) \<and>
      sleeps r = (slept @ [delay]) @ backoff rnd (i + 1) (delay * 2 + rnd i * 1000) (calls r - 1 - (i + 1)) \<and>
      (calls r < maxRetries \<longrightarrow> \<not> retriable (fn (calls r - 1)))"
        using 1(1)[OF 1(2) Inl True lt] unfolding r_def Let_def by blast
      have ri: "retriable (fn i)" using True Inl by (simp add: retriable_def)
      have "calls r - 1 - i = Suc (calls r - 1 - (i + 1))" using IH by linarith
      then have bk: "backoff rnd i delay (calls r - 1 - i) =
          delay # backoff rnd (i + 1) (delay * 2 + rnd i * 1000) (calls r - 1 - (i + 1))"
        by simp
      have all: "\<forall>k. i \<le> k \<and> k + 1 < calls r \<longrightarrow> retriable (fn k)"
      proof (intro allI impI)
        fix k assume "i \<le> k \<and> k + 1 < calls r"
        then show "retriable (fn k)" using IH ri by (cases "k = i") auto
      qed
      show ?thesis unfolding unf r_def[symmetric] Let_def using IH bk all by simp
    qed
  qed
qed

lemma backoff_length: "length (backoff rnd i d n) = n"
  by (induction n arbitrary: i d) auto

lemma backoff_nth:
  "Suc k < n \<Longrightarrow> backoff rnd i d n ! Suc k = backoff rnd i d n ! k * 2 + rnd (i + k) * 1000"
proof (induction n arbitrary: i d k)
  case 0
  then show ?case by simp
next
  case (Suc n)
  show ?case
  proof (cases k)
    case 0
    then show ?thesis using Suc.prems by (cases n) auto
  next
    case (Suc k')
    then show ?thesis using Suc.IH[of k' "Suc i"] Suc.prems by simp
  qed
qed

lemma backoff_hd: "0 < n \<Longrightarrow> backoff rnd i d n ! 0 = d"
  by (cases n) auto


lemma flaky_facts:
  "isRateLimit tooMany" "\<not> isRateLimit badRequest" "\<not> isServerError badRequest"
  by (simp_all add: tooMany_def badRequest_def isRateLimit_def isServerError_def
      messageIncludes_def)

text \<open>
  C9. With at least one attempt allowed (five by default) and jitter factors in [0, 1):
  the operation is invoked at least once and at most \<open>maxRetries\<close> times, and what the
  wrapper returns or throws is what the last invocation returned or threw. An
  invocation is followed by another only if it failed with a rate-limit or server
  error; an error of any other kind, and a success, end the call at once; a rate-limit
  or server error is retried as long as an attempt is left, so when every attempt fails
  that way all \<open>maxRetries\<close> are made and the last error is thrown. One delay is slept
  before each further invocation: the first is \<open>initialDelay\<close>, and each later one is
  twice the one before plus a jitter of at least 0 and less than 1000.
\<close>

theorem withRetry_spec:
  assumes "1 \<le> maxRetries" and "\<forall>k. 0 \<le> rnd k \<and> rnd k < 1"
  shows "let r = withRetry fn rnd maxRetries initialDelay in
     1 \<le> calls r \<and> calls r \<le> maxRetries \<and>
     outcome r = fn (calls r - 1) \<and>
     (\<forall>k. k + 1 < calls r \<longrightarrow> (\<exists>e. fn k = Inl e \<and> (isRateLimit e \<or> isServerError e))) \<and>
     (\<forall>k e. k < calls r \<and> fn k = Inl e \<and> \<not> (isRateLimit e \<or> isServerError e)
        \<longrightarrow> calls r = k + 1 \<and> outcome r = Inl e) \<and>
     (\<forall>k v. k < calls r \<and> fn k = Inr v \<longrightarrow> calls r = k + 1 \<and> outcome r = Inr v) \<and>
     (calls r < maxRetries \<longrightarrow> \<not> retriable (fn (calls r - 1))) \<and>
     (\<forall>k. k < calls r \<and> retriable (fn k) \<and> k + 1 < maxRetries \<longrightarrow> k + 1 < calls r) \<and>
     ((\<forall>k < maxRetries. retriable (fn k))
        \<longrightarrow> calls r = maxRetries \<and> outcome r = fn (maxRetries - 1)) \<and>
     length (sleeps r) = calls r - 1 \<and>
     (0 < length (sleeps r) \<longrightarrow> sleeps r ! 0 = initialDelay) \<and>
     (\<forall>k. k + 1 < length (sleeps r) \<longrightarrow>
        (\<exists>jitter. 0 \<le> jitter \<and> jitter < 1000 \<and>
           sleeps r ! (k + 1) = sleeps r ! k * 2 + jitter))"
proof -
  define r where "r = withRetry fn rnd maxRetries initialDelay"
  have P: "0 < calls r \<and> calls r \<le> maxRetries \<and>
      outcome r = fn (calls r - 1) \<and>
      (\<forall>k. 0 \<le> k \<and> k + 1 < calls r \<longrightarrow> retriable (fn k)) \<and>
      sleeps r = [] @ backoff rnd 0 initialDelay (calls r - 1 - 0) \<and>
      (calls r < maxRetries \<longrightarrow> \<not> retriable (fn (calls r - 1)))"
    using retryLoop_props[of 0 maxRetries fn rnd initialDelay "[]"] assms(1)
    unfolding r_def withRetry_def Let_def by simp
  have p0: "0 < calls r" and p2: "calls r \<le> maxRetries"
    and p3: "outcome r = fn (calls r - 1)"
    and p4: "\<forall>k. 0 \<le> k \<and> k + 1 < calls r \<longrightarrow> retriable (fn k)"
    and p5: "sleeps r = [] @ backoff rnd 0 initialDelay (calls r - 1 - 0)"
    and p7: "calls r < maxRetries \<longrightarrow> \<not> retriable (fn (calls r - 1))"
    using P by blast+
  have p1: "1 \<le> calls r" using p0 by simp
  have sl: "sleeps r = backoff rnd 0 initialDelay (calls r - 1)" using p5 by simp
  have early: "\<And>k. k + 1 < calls r \<Longrightarrow> retriable (fn k)" using p4 by simp
  have c1: "\<forall>k. k + 1 < calls r \<longrightarrow> (\<exists>e. fn k = Inl e \<and> (isRateLimit e \<or> isServerError e))"
  proof (intro allI impI)
    fix k assume "k + 1 < calls r"
    then have "retriable (fn k)" by (rule early)
    then show "\<exists>e. fn k = Inl e \<and> (isRateLimit e \<or> isServerError e)"
      by (cases "fn k") (simp_all add: retriable_def)
  qed
  have last: "\<And>k. k < calls r \<Longrightarrow> \<not> retriable (fn k) \<Longrightarrow> calls r = k + 1"
  proof -
    fix k assume a: "k < calls r" "\<not> retriable (fn k)"
    show "calls r = k + 1"
    proof (rule ccontr)
      assume "calls r \<noteq> k + 1"
      then have "k + 1 < calls r" using a(1) by simp
      then show False using early a(2) by blast
    qed
  qed
  have c2: "\<forall>k e. k < calls r \<and> fn k = Inl e \<and> \<not> (isRateLimit e \<or> isServerError e)
        \<longrightarrow> calls r = k + 1 \<and> outcome r = Inl e"
  proof (intro allI impI)
    fix k e assume a: "k < calls r \<and> fn k = Inl e \<and> \<not> (isRateLimit e \<or> isServerError e)"
    then have "\<not> retriable (fn k)" by (simp add: retriable_def)
    then have "calls r = k + 1" using a last by blast
    then show "calls r = k + 1 \<and> outcome r = Inl e" using p3 a by simp
  qed
  have c3: "\<forall>k v. k < calls r \<and> fn k = Inr v \<longrightarrow> calls r = k + 1 \<and> outcome r = Inr v"
  proof (intro allI impI)
    fix k v assume a: "k < calls r \<and> fn k = Inr v"
    then have "\<not> retriable (fn k)" by (simp add: retriable_def)
    then have "calls r = k + 1" using a last by blast
    then show "calls r = k + 1 \<and> outcome r = Inr v" using p3 a by simp
  qed
  have c8: "\<forall>k. k < calls r \<and> retriable (fn k) \<and> k + 1 < maxRetries \<longrightarrow> k + 1 < calls r"
  proof (intro allI impI)
    fix k assume a: "k < calls r \<and> retriable (fn k) \<and> k + 1 < maxRetries"
    show "k + 1 < calls r"
    proof (rule ccontr)
      assume "\<not> k + 1 < calls r"
      then have eq: "calls r = k + 1" using a by simp
      then have "\<not> retriable (fn (calls r - 1))" using p7 a by simp
      then show False using a eq by simp
    qed
  qed
  have c4: "(\<forall>k < maxRetries. retriable (fn k))
        \<longrightarrow> calls r = maxRetries \<and> outcome r = fn (maxRetries - 1)"
  proof
    assume all: "\<forall>k < maxRetries. retriable (fn k)"
    have "calls r = maxRetries"
    proof (rule ccontr)
      assume "calls r \<noteq> maxRetries"
      then have lt: "calls r < maxRetries" using p2 by simp
      then have "\<not> retriable (fn (calls r - 1))" using p7 by blast
      moreover have "calls r - 1 < maxRetries" using lt by simp
      ultimately show False using all by blast
    qed
    then show "calls r = maxRetries \<and> outcome r = fn (maxRetries - 1)" using p3 by simp
  qed
  have c5: "\<forall>k. k + 1 < length (sleeps r) \<longrightarrow>
        (\<exists>jitter. 0 \<le> jitter \<and> jitter < 1000 \<and>
           sleeps r ! (k + 1) = sleeps r ! k * 2 + jitter)"
  proof (intro allI impI)
    fix k assume "k + 1 < length (sleeps r)"
    then have "Suc k < calls r - 1" by (simp add: sl backoff_length)
    then have "sleeps r ! (k + 1) = sleeps r ! k * 2 + rnd (0 + k) * 1000"
      unfolding sl using backoff_nth[of k "calls r - 1" rnd 0 initialDelay] by simp
    moreover have "0 \<le> rnd (0 + k) * 1000 \<and> rnd (0 + k) * 1000 < 1000"
      using assms(2) by simp
    ultimately show "\<exists>jitter. 0 \<le> jitter \<and> jitter < 1000 \<and>
           sleeps r ! (k + 1) = sleeps r ! k * 2 + jitter" by blast
  qed
  have c6: "0 < length (sleeps r) \<longrightarrow> sleeps r ! 0 = initialDelay"
    by (simp add: sl backoff_length backoff_hd)
  have c7: "length (sleeps r) = calls r - 1" by (simp add: sl backoff_length)
  show ?thesis unfolding Let_def r_def[symmetric]
    by (intro conjI p1 p2 p3 c1 c2 c3 p7 c8 c4 c7 c6 c5)
qed

theorem withRetry_spec_witness:
  "calls (withRetry flaky half 5 4000) \<le> 5 \<and>
   outcome (withRetry flaky half 5 4000) = flaky (calls (withRetry flaky half 5 4000) - 1) \<and>
   calls (withRetry flaky half 5 4000) = 3 \<and>
   outcome (withRetry flaky half 5 4000) = Inl badRequest \<and>
   sleeps (withRetry flaky half 5 4000) = [4000, 8500]"
proof -
  have h1: "(1::nat) \<le> 5" by simp
  have h2: "\<forall>k. 0 \<le> half k \<and> half k < 1" by (simp add: half_def)
  have T: "calls (withRetry flaky half 5 4000) \<le> 5 \<and>
      outcome (withRetry flaky half 5 4000) = flaky (calls (withRetry flaky half 5 4000) - 1)"
    using withRetry_spec[OF h1 h2, of flaky 4000] unfolding Let_def by blast
  have ev: "calls (withRetry flaky half 5 4000) = 3 \<and>
      outcome (withRetry flaky half 5 4000) = Inl badRequest \<and>
      sleeps (withRetry flaky half 5 4000) = [4000, 8500]"
    by (simp add: withRetry_def retryLoop.simps flaky_def half_def flaky_facts)
  show ?thesis using T ev by blast
qed

section \<open>The orchestrator: one item, and the loop\<close>

lemma currentBatch_one: "i < length vs \<Longrightarrow> take batchSize (drop i vs) = [vs ! i]"
  by (simp add: batchSize_def take_Suc_conv_app_nth[of 0] hd_drop_conv_nth take_Suc)

lemma abortsAt_fetchVariation:
  "abortsAt w type vs j \<Longrightarrow>
   \<exists>e. generateSingleAsset w j (vs ! j) type = Inl e \<and> messageIncludes e ''429'' \<and>
       fetchVariation w type j (vs ! j) = Inl e"
  by (auto simp: abortsAt_def fetchVariation_def split: sum.splits)

lemma not_abortsAt_fetchVariation:
  "\<not> abortsAt w type vs j \<Longrightarrow> fetchVariation w type j (vs ! j) = Inr (assetOf w type vs j)"
  by (auto simp: abortsAt_def fetchVariation_def assetOf_def split: sum.splits)

lemma processItem_abort:
  assumes "generateSingleAsset w j (vs ! j) type = Inl e" "messageIncludes e ''429''"
  shows "processItem w type vs j st = (Some e, st\<lparr>fetchLog := fetchLog st @ [(j, vs ! j)]\<rparr>)"
  using assms by (simp add: processItem_def fetchVariation_def Let_def)

lemma processItem_continue:
  assumes "j < length vs" "\<not> abortsAt w type vs j"
  shows "fst (processItem w type vs j st) = None"
    and "fetchLog (snd (processItem w type vs j st)) = fetchLog st @ [(j, vs ! j)]"
    and "newAssets (snd (processItem w type vs j st)) = newAssets st @ got w type vs j"
    and "assets (snd (processItem w type vs j st)) = got w type vs j @ assets st"
    and "assetsLog (snd (processItem w type vs j st)) = assetsLog st @ [got w type vs j @ assets st]"
    and "progress (snd (processItem w type vs j st)) = progressValue j 1 (length vs)"
    and "progressLog (snd (processItem w type vs j st)) = progressLog st @ [progressValue j 1 (length vs)]"
    and "error (snd (processItem w type vs j st)) = error st"
    and "isGenerating (snd (processItem w type vs j st)) = isGenerating st"
  using assms
  by (simp_all add: processItem_def not_abortsAt_fetchVariation currentBatch_one Let_def got_def)


lemma advance_refl: "advance w type vs i i st = st"
  by (simp add: advance_def)

lemma advance_Suc:
  "i \<le> m \<Longrightarrow> advance w type vs i (Suc m) st = snd (processItem w type vs m (advance w type vs i m st))"
  by (simp add: advance_def)

lemma got_le1: "rev (got w type vs j) = got w type vs j"
  by (simp add: got_def split: option.splits)

lemma concat_got_Suc:
  "i \<le> m \<Longrightarrow> concat (map (got w type vs) [i..<Suc m]) = concat (map (got w type vs) [i..<m]) @ got w type vs m"
  by simp

lemma advance_fields:
  "i \<le> m \<Longrightarrow> m \<le> length vs \<Longrightarrow> \<forall>k. i \<le> k \<and> k < m \<longrightarrow> \<not> abortsAt w type vs k \<Longrightarrow>
   fetchLog (advance w type vs i m st) = fetchLog st @ map (\<lambda>k. (k, vs ! k)) [i..<m] \<and>
   newAssets (advance w type vs i m st) = newAssets st @ concat (map (got w type vs) [i..<m]) \<and>
   assets (advance w type vs i m st) = rev (concat (map (got w type vs) [i..<m])) @ assets st \<and>
   assetsLog (advance w type vs i m st) =
     assetsLog st @ map (\<lambda>k. rev (concat (map (got w type vs) [i..<Suc k])) @ assets st) [i..<m] \<and>
   progressLog (advance w type vs i m st) =
     progressLog st @ map (\<lambda>k. progressValue k 1 (length vs)) [i..<m] \<and>
   progress (advance w type vs i m st) =
     (if i < m then progressValue (m - 1) 1 (length vs) else progress st) \<and>
   error (advance w type vs i m st) = error st \<and>
   isGenerating (advance w type vs i m st) = isGenerating st"
proof (induction m)
  case 0
  then show ?case by (simp add: advance_refl)
next
  case (Suc m)
  show ?case
  proof (cases "i = Suc m")
    case True
    then show ?thesis by (simp add: advance_refl)
  next
    case False
    then have im: "i \<le> m" using Suc.prems by simp
    have ml: "m < length vs" using Suc.prems by simp
    have na: "\<not> abortsAt w type vs m" using Suc.prems im by simp
    have IH: "fetchLog (advance w type vs i m st) = fetchLog st @ map (\<lambda>k. (k, vs ! k)) [i..<m] \<and>
   newAssets (advance w type vs i m st) = newAssets st @ concat (map (got w type vs) [i..<m]) \<and>
   assets (advance w type vs i m st) = rev (concat (map (got w type vs) [i..<m])) @ assets st \<and>
   assetsLog (advance w type vs i m st) =
     assetsLog st @ map (\<lambda>k. rev (concat (map (got w type vs) [i..<Suc k])) @ assets st) [i..<m] \<and>
   progressLog (advance w type vs i m st) =
     progressLog st @ map (\<lambda>k. progressValue k 1 (length vs)) [i..<m] \<and>
   progress (advance w type vs i m st) =
     (if i < m then progressValue (m - 1) 1 (length vs) else progress st) \<and>
   error (advance w type vs i m st) = error st \<and>
   isGenerating (advance w type vs i m st) = isGenerating st"
      using Suc.IH[OF im] Suc.prems by simp
    note step = processItem_continue[OF ml na, of "advance w type vs i m st"]
    have up: "[i..<Suc m] = [i..<m] @ [m]" using im by simp
    show ?thesis
      unfolding advance_Suc[OF im] step up
      using IH im by (simp add: got_le1)
  qed
qed

text \<open>The loop runs through every item that does not stop it.\<close>

lemma handleLoop_advance:
  "i \<le> m \<Longrightarrow> m \<le> length vs \<Longrightarrow> \<forall>k. i \<le> k \<and> k < m \<longrightarrow> \<not> abortsAt w type vs k \<Longrightarrow>
   handleLoop w type vs i st = handleLoop w type vs m (advance w type vs i m st)"
proof (induction m)
  case 0
  then show ?case by (simp add: advance_refl)
next
  case (Suc m)
  show ?case
  proof (cases "i = Suc m")
    case True
    then show ?thesis by (simp add: advance_refl)
  next
    case False
    then have im: "i \<le> m" using Suc.prems by simp
    have ml: "m < length vs" using Suc.prems by simp
    have na: "\<not> abortsAt w type vs m" using Suc.prems im by simp
    have "handleLoop w type vs i st = handleLoop w type vs m (advance w type vs i m st)"
      using Suc.IH[OF im] Suc.prems by simp
    also have "\<dots> = handleLoop w type vs (Suc m) (advance w type vs i (Suc m) st)"
    proof -
      obtain st' where p: "processItem w type vs m (advance w type vs i m st) = (None, st')"
        using processItem_continue(1)[OF ml na, of "advance w type vs i m st"]
        by (cases "processItem w type vs m (advance w type vs i m st)") simp
      show ?thesis using ml p
        by (subst handleLoop.simps) (simp add: advance_Suc[OF im] batchSize_def)
    qed
    finally show ?thesis .
  qed
qed

lemma handleLoop_done: "length vs \<le> i \<Longrightarrow> handleLoop w type vs i st = (None, st)"
  by (subst handleLoop.simps) simp

lemma handleLoop_abort:
  "m < length vs \<Longrightarrow> generateSingleAsset w m (vs ! m) type = Inl e \<Longrightarrow> messageIncludes e ''429'' \<Longrightarrow>
   handleLoop w type vs m st = (Some e, st\<lparr>fetchLog := fetchLog st @ [(m, vs ! m)]\<rparr>)"
  by (subst handleLoop.simps) (simp add: processItem_abort)

text \<open>Where a run of the loop ends: past the last item, or at the first item that stops it.\<close>

lemma handleLoop_cases [consumes 1, case_names completed stopped]:
  assumes "i \<le> length vs"
  obtains
    (completed) "\<forall>k. i \<le> k \<and> k < length vs \<longrightarrow> \<not> abortsAt w type vs k"
      "handleLoop w type vs i st = (None, advance w type vs i (length vs) st)"
  | (stopped) m e where "i \<le> m" "m < length vs"
      "\<forall>k. i \<le> k \<and> k < m \<longrightarrow> \<not> abortsAt w type vs k"
      "generateSingleAsset w m (vs ! m) type = Inl e" "messageIncludes e ''429''"
      "handleLoop w type vs i st =
         (Some e, (advance w type vs i m st)\<lparr>fetchLog := fetchLog (advance w type vs i m st) @ [(m, vs ! m)]\<rparr>)"
proof (cases "\<exists>k. i \<le> k \<and> k < length vs \<and> abortsAt w type vs k")
  case False
  then have na: "\<forall>k. i \<le> k \<and> k < length vs \<longrightarrow> \<not> abortsAt w type vs k" by blast
  have "handleLoop w type vs i st = (None, advance w type vs i (length vs) st)"
    using handleLoop_advance[OF assms le_refl na] by (simp add: handleLoop_done)
  then show ?thesis using na completed by blast
next
  case True
  define m where "m = (LEAST k. i \<le> k \<and> k < length vs \<and> abortsAt w type vs k)"
  have pm: "i \<le> m \<and> m < length vs \<and> abortsAt w type vs m"
    unfolding m_def using True by (rule LeastI_ex)
  have mn: "\<forall>k. i \<le> k \<and> k < m \<longrightarrow> \<not> abortsAt w type vs k"
  proof (intro allI impI)
    fix k assume a: "i \<le> k \<and> k < m"
    show "\<not> abortsAt w type vs k"
    proof
      assume "abortsAt w type vs k"
      then have "i \<le> k \<and> k < length vs \<and> abortsAt w type vs k" using a pm by simp
      then have "m \<le> k" unfolding m_def by (rule Least_le)
      then show False using a by simp
    qed
  qed
  obtain e where e: "generateSingleAsset w m (vs ! m) type = Inl e" "messageIncludes e ''429''"
    using pm abortsAt_fetchVariation by blast
  have "handleLoop w type vs i st = handleLoop w type vs m (advance w type vs i m st)"
    using handleLoop_advance[of i m vs w type st] pm mn by simp
  then have "handleLoop w type vs i st =
         (Some e, (advance w type vs i m st)\<lparr>fetchLog := fetchLog (advance w type vs i m st) @ [(m, vs ! m)]\<rparr>)"
    using handleLoop_abort[OF _ e] pm by simp
  then show ?thesis using stopped pm mn e by blast
qed

section \<open>The orchestrator: a whole run\<close>

lemma begin_run_fields:
  "fetchLog (begin_run st) = fetchLog st" "assets (begin_run st) = assets st"
  "assetsLog (begin_run st) = assetsLog st" "newAssets (begin_run st) = []"
  "progressLog (begin_run st) = progressLog st @ [0]" "progress (begin_run st) = 0"
  "error (begin_run st) = None"
  by (simp_all add: begin_run_def)

lemma reportError_fields:
  "fetchLog (reportError e st) = fetchLog st" "assets (reportError e st) = assets st"
  "assetsLog (reportError e st) = assetsLog st" "newAssets (reportError e st) = newAssets st"
  "progressLog (reportError e st) = progressLog st" "progress (reportError e st) = progress st"
  "error (reportError e st) \<noteq> None"
  by (simp_all add: reportError_def)

lemma finish_fields:
  "fetchLog (finish st) = fetchLog st" "assets (finish st) = assets st"
  "assetsLog (finish st) = assetsLog st" "newAssets (finish st) = newAssets st"
  "progressLog (finish st) = progressLog st @ [0]" "progress (finish st) = 0"
  "error (finish st) = error st"
  by (simp_all add: finish_def)

text \<open>How a run ends once the variations are there.\<close>

lemma handleGenerate_cases [consumes 1, case_names completed stopped]:
  assumes "expanded w bp = Inr vs"
  obtains
    (completed) "\<forall>k. k < length vs \<longrightarrow> \<not> abortsAt w type vs k"
      "handleGenerate w bp type st =
         finish (if length (newAssets (advance w type vs 0 (length vs) (begin_run st))) = 0
                 then reportError emptyRunError (advance w type vs 0 (length vs) (begin_run st))
                 else advance w type vs 0 (length vs) (begin_run st))"
  | (stopped) m e where "m < length vs"
      "\<forall>k. k < m \<longrightarrow> \<not> abortsAt w type vs k"
      "generateSingleAsset w m (vs ! m) type = Inl e" "messageIncludes e ''429''"
      "handleGenerate w bp type st =
         finish (reportError e
           ((advance w type vs 0 m (begin_run st))
              \<lparr>fetchLog := fetchLog (advance w type vs 0 m (begin_run st)) @ [(m, vs ! m)]\<rparr>))"
proof -
  have z: "0 \<le> length vs" by simp
  from z show ?thesis
  proof (cases rule: handleLoop_cases[where w = w and type = type and st = "begin_run st"])
    case completed
    show ?thesis
      by (rule that(1)) (use completed assms in \<open>simp_all add: handleGenerate_def\<close>)
  next
    case (stopped m e)
    show ?thesis
      by (rule that(2)[of m e]) (use stopped assms in \<open>simp_all add: handleGenerate_def\<close>)
  qed
qed

lemma run_stopped:
  assumes "expanded w bp = Inr vs" "i < length vs" "\<forall>k<i. \<not> abortsAt w type vs k"
    "generateSingleAsset w i (vs ! i) type = Inl e" "messageIncludes e ''429''"
  shows "handleGenerate w bp type st =
         finish (reportError e
           ((advance w type vs 0 i (begin_run st))
              \<lparr>fetchLog := fetchLog (advance w type vs 0 i (begin_run st)) @ [(i, vs ! i)]\<rparr>))"
proof -
  have "handleLoop w type vs 0 (begin_run st) =
      handleLoop w type vs i (advance w type vs 0 i (begin_run st))"
    using handleLoop_advance[of 0 i vs w type "begin_run st"] assms(2,3) by simp
  then show ?thesis
    using handleLoop_abort[OF assms(2,4,5)] assms(1) by (simp add: handleGenerate_def)
qed

lemma run_completed:
  assumes "expanded w bp = Inr vs" "\<forall>k<length vs. \<not> abortsAt w type vs k"
  shows "handleGenerate w bp type st =
         finish (if length (newAssets (advance w type vs 0 (length vs) (begin_run st))) = 0
                 then reportError emptyRunError (advance w type vs 0 (length vs) (begin_run st))
                 else advance w type vs 0 (length vs) (begin_run st))"
proof -
  have "handleLoop w type vs 0 (begin_run st) =
      handleLoop w type vs (length vs) (advance w type vs 0 (length vs) (begin_run st))"
    using handleLoop_advance[of 0 "length vs" vs w type "begin_run st"] assms(2) by simp
  then show ?thesis
    using assms(1) by (simp add: handleGenerate_def handleLoop_done)
qed

lemma sampleWorld_expanded: "expanded (sampleWorld (Some (v # vs)) f) bp = Inr (v # vs)"
  by (simp add: expanded_def generatePromptVariations_def withRetry_def retryLoop.simps
      sampleWorld_def parseVariations_def)

lemma sampleWorld_expanded': "vs \<noteq> [] \<Longrightarrow> expanded (sampleWorld (Some vs) f) bp = Inr vs"
  by (cases vs) (simp_all add: sampleWorld_expanded)

lemma sampleWorld_fetch: "generateSingleAsset (sampleWorld p f) i q t = f i"
  by (simp add: sampleWorld_def)

lemma sample_errors:
  "messageIncludes tooMany ''429''" "\<not> messageIncludes badRequest ''429''"
  "\<not> messageIncludes exhausted ''429''" "messageIncludes notFound429 ''429''"
  "messageIncludes notFound429 ''Requested entity was not found''"
  "\<not> messageIncludes tooMany ''Requested entity was not found''"
  "isRateLimit exhausted" "isRateLimit notFound429"
  by (simp_all add: tooMany_def badRequest_def exhausted_def notFound429_def
      messageIncludes_def isRateLimit_def)

lemma run_stopped_fields:
  assumes "expanded w bp = Inr vs" and "i < length vs"
    and "\<forall>k<i. \<not> abortsAt w type vs k"
    and "generateSingleAsset w i (vs ! i) type = Inl e"
    and "messageIncludes e ''429''"
  shows "fetchLog (handleGenerate w bp type st) = fetchLog st @ map (\<lambda>k. (k, vs ! k)) [0..<Suc i]"
    and "newAssets (handleGenerate w bp type st) = concat (map (got w type vs) [0..<i])"
    and "assets (handleGenerate w bp type st) = rev (concat (map (got w type vs) [0..<i])) @ assets st"
    and "assetsLog (handleGenerate w bp type st) =
       assetsLog st @ map (\<lambda>k. rev (concat (map (got w type vs) [0..<Suc k])) @ assets st) [0..<i]"
    and "progressLog (handleGenerate w bp type st) =
       progressLog st @ [0] @ map (\<lambda>k. progressValue k 1 (length vs)) [0..<i] @ [0]"
    and "progress (handleGenerate w bp type st) = 0"
    and "error (handleGenerate w bp type st) =
       Some (if messageIncludes e ''Requested entity was not found'' then authMessage
             else rateLimitMessage)"
proof -
  have na: "\<forall>k. 0 \<le> k \<and> k < i \<longrightarrow> \<not> abortsAt w type vs k" using assms(3) by simp
  have il: "i \<le> length vs" using assms(2) by simp
  note A = advance_fields[OF le0 il na, of "begin_run st"]
  show "fetchLog (handleGenerate w bp type st) = fetchLog st @ map (\<lambda>k. (k, vs ! k)) [0..<Suc i]"
    unfolding run_stopped[OF assms]
    using A by (simp add: finish_def reportError_def begin_run_fields)
  show "newAssets (handleGenerate w bp type st) = concat (map (got w type vs) [0..<i])"
    unfolding run_stopped[OF assms]
    using A by (simp add: finish_def reportError_def begin_run_fields)
  show "assets (handleGenerate w bp type st) = rev (concat (map (got w type vs) [0..<i])) @ assets st"
    unfolding run_stopped[OF assms]
    using A by (simp add: finish_def reportError_def begin_run_fields)
  show "assetsLog (handleGenerate w bp type st) =
       assetsLog st @ map (\<lambda>k. rev (concat (map (got w type vs) [0..<Suc k])) @ assets st) [0..<i]"
    unfolding run_stopped[OF assms]
    using A by (simp add: finish_def reportError_def begin_run_fields)
  show "progressLog (handleGenerate w bp type st) =
       progressLog st @ [0] @ map (\<lambda>k. progressValue k 1 (length vs)) [0..<i] @ [0]"
    unfolding run_stopped[OF assms]
    using A by (simp add: finish_def reportError_def begin_run_fields)
  show "progress (handleGenerate w bp type st) = 0"
    by (simp add: handleGenerate_def finish_fields)
  show "error (handleGenerate w bp type st) =
       Some (if messageIncludes e ''Requested entity was not found'' then authMessage
             else rateLimitMessage)"
    unfolding run_stopped[OF assms]
    using A assms(5) by (simp add: finish_def reportError_def begin_run_fields)
qed

lemma run_completed_fields:
  assumes "expanded w bp = Inr vs" and "\<forall>k<length vs. \<not> abortsAt w type vs k"
  shows "fetchLog (handleGenerate w bp type st) =
       fetchLog st @ map (\<lambda>k. (k, vs ! k)) [0..<length vs]"
    and "newAssets (handleGenerate w bp type st) = concat (map (got w type vs) [0..<length vs])"
    and "assets (handleGenerate w bp type st) =
       rev (concat (map (got w type vs) [0..<length vs])) @ assets st"
    and "assetsLog (handleGenerate w bp type st) =
       assetsLog st @
       map (\<lambda>k. rev (concat (map (got w type vs) [0..<Suc k])) @ assets st) [0..<length vs]"
    and "progressLog (handleGenerate w bp type st) =
       progressLog st @ [0] @ map (\<lambda>k. progressValue k 1 (length vs)) [0..<length vs] @ [0]"
    and "progress (handleGenerate w bp type st) = 0"
    and "error (handleGenerate w bp type st) =
       (if concat (map (got w type vs) [0..<length vs]) = [] then error (reportError emptyRunError st)
        else None)"
proof -
  have na: "\<forall>k. 0 \<le> k \<and> k < length vs \<longrightarrow> \<not> abortsAt w type vs k" using assms(2) by simp
  note A = advance_fields[OF le0 le_refl na, of "begin_run st"]
  show "fetchLog (handleGenerate w bp type st) =
       fetchLog st @ map (\<lambda>k. (k, vs ! k)) [0..<length vs]"
    unfolding run_completed[OF assms]
    using A by (simp add: finish_def reportError_def begin_run_fields)
  show "newAssets (handleGenerate w bp type st) = concat (map (got w type vs) [0..<length vs])"
    unfolding run_completed[OF assms]
    using A by (simp add: finish_def reportError_def begin_run_fields)
  show "assets (handleGenerate w bp type st) =
       rev (concat (map (got w type vs) [0..<length vs])) @ assets st"
    unfolding run_completed[OF assms]
    using A by (simp add: finish_def reportError_def begin_run_fields)
  show "assetsLog (handleGenerate w bp type st) =
       assetsLog st @
       map (\<lambda>k. rev (concat (map (got w type vs) [0..<Suc k])) @ assets st) [0..<length vs]"
    unfolding run_completed[OF assms]
    using A by (simp add: finish_def reportError_def begin_run_fields)
  show "progressLog (handleGenerate w bp type st) =
       progressLog st @ [0] @ map (\<lambda>k. progressValue k 1 (length vs)) [0..<length vs] @ [0]"
    unfolding run_completed[OF assms]
    using A by (simp add: finish_def reportError_def begin_run_fields)
  show "progress (handleGenerate w bp type st) = 0"
    by (simp add: handleGenerate_def finish_fields)
  show "error (handleGenerate w bp type st) =
       (if concat (map (got w type vs) [0..<length vs]) = [] then error (reportError emptyRunError st)
        else None)"
    unfolding run_completed[OF assms]
    using A by (simp add: finish_def reportError_def begin_run_fields emptyRunError_def messageIncludes_def)
qed

text \<open>
  C2 (as amended). In a run whose variations are \<open>vs\<close> and that reaches item \<open>i\<close> (no
  earlier fetch stopped it), if the fetch of item \<open>i\<close> fails with a message that contains
  "429", then that fetch is the last one of the run, the run's assets are those of the
  items before \<open>i\<close> and nothing is added to either collection afterwards, and the error
  shown is the rate-limit message, unless the message also contains "Requested entity
  was not found": then it is the authentication message.
\<close>

theorem rate_limit_stops_run:
  assumes "expanded w bp = Inr vs" and "i < length vs"
    and "\<forall>k<i. \<not> abortsAt w type vs k"
    and "generateSingleAsset w i (vs ! i) type = Inl e"
    and "messageIncludes e ''429''"
  shows "fetchLog (handleGenerate w bp type st) = fetchLog st @ map (\<lambda>k. (k, vs ! k)) [0..<Suc i] \<and>
     newAssets (handleGenerate w bp type st) = concat (map (got w type vs) [0..<i]) \<and>
     assets (handleGenerate w bp type st) = rev (concat (map (got w type vs) [0..<i])) @ assets st \<and>
     length (assetsLog (handleGenerate w bp type st)) = length (assetsLog st) + i \<and>
     error (handleGenerate w bp type st) =
       Some (if messageIncludes e ''Requested entity was not found'' then authMessage
             else rateLimitMessage)"
  using run_stopped_fields[OF assms, of st] by simp

lemma sample_got:
  "f i = Inr u \<Longrightarrow> got (sampleWorld p f) t vs i =
     [\<lparr>asset_id = ''id'', url = u, asset_type = t, prompt = vs ! i, timestamp = i,
       isVideo = (t = GIF)\<rparr>]"
  "f i = Inl e \<Longrightarrow> \<not> messageIncludes e ''429'' \<Longrightarrow> got (sampleWorld p f) t vs i = []"
  by (simp_all add: got_def assetOf_def fetchVariation_def sampleWorld_def)

lemma sample_abortsAt:
  "f i = Inr u \<Longrightarrow> \<not> abortsAt (sampleWorld p f) t vs i"
  "f i = Inl e \<Longrightarrow> abortsAt (sampleWorld p f) t vs i = messageIncludes e ''429''"
  by (simp_all add: abortsAt_def sampleWorld_def)

theorem rate_limit_stops_run_witness:
  "fetchLog (handleGenerate world_c2w ''cat'' STICKER initial) = [(0, ''a''), (1, ''b'')] \<and>
   length (newAssets (handleGenerate world_c2w ''cat'' STICKER initial)) = 1 \<and>
   length (assetsLog (handleGenerate world_c2w ''cat'' STICKER initial)) = 1 \<and>
   error (handleGenerate world_c2w ''cat'' STICKER initial) = Some rateLimitMessage"
proof -
  have h1: "expanded world_c2w ''cat'' = Inr [''a'', ''b'', ''c'']"
    by (simp add: world_c2w_def sampleWorld_expanded)
  have h2: "1 < length [''a'', ''b'', ''c'']" by simp
  have h3: "\<forall>k<1. \<not> abortsAt world_c2w STICKER [''a'', ''b'', ''c''] k"
    by (simp add: world_c2w_def sample_abortsAt fetch_c2w_def)
  have h4: "generateSingleAsset world_c2w 1 ([''a'', ''b'', ''c''] ! 1) STICKER = Inl tooMany"
    by (simp add: world_c2w_def sampleWorld_fetch fetch_c2w_def)
  have g0: "length (got world_c2w STICKER [''a'', ''b'', ''c''] 0) = 1"
    by (simp add: world_c2w_def sample_got(1)[of _ _ "''url''"] fetch_c2w_def)
  show ?thesis
    using rate_limit_stops_run[OF h1 h2 h3 h4 sample_errors(1), where st = initial] g0
    by (simp add: sample_errors initial_def)
qed

text \<open>
  The first branch of the \<open>catch\<close> block wins: a failure that is classified rate-limit and
  whose message names a missing entity stops the run with the authentication message.
\<close>

theorem rate_limit_message_counterexample:
  "generateSingleAsset world_c2 1 ''b'' STICKER = Inl notFound429 \<and>
   isRateLimit notFound429 \<and>
   fetchLog (handleGenerate world_c2 ''cat'' STICKER initial) = [(0, ''a''), (1, ''b'')] \<and>
   error (handleGenerate world_c2 ''cat'' STICKER initial) = Some authMessage \<and>
   error (handleGenerate world_c2 ''cat'' STICKER initial) \<noteq> Some rateLimitMessage"
proof -
  have h1: "expanded world_c2 ''cat'' = Inr [''a'', ''b'', ''c'']"
    by (simp add: world_c2_def sampleWorld_expanded)
  have h2: "1 < length [''a'', ''b'', ''c'']" by simp
  have h3: "\<forall>k<1. \<not> abortsAt world_c2 STICKER [''a'', ''b'', ''c''] k"
    by (simp add: world_c2_def sample_abortsAt fetch_c2_def)
  have h4: "generateSingleAsset world_c2 1 ([''a'', ''b'', ''c''] ! 1) STICKER = Inl notFound429"
    by (simp add: world_c2_def sampleWorld_fetch fetch_c2_def)
  have ne: "authMessage \<noteq> rateLimitMessage"
    by (simp add: authMessage_def rateLimitMessage_def)
  note R = run_stopped_fields[OF h1 h2 h3 h4 sample_errors(4), where st = initial]
  show ?thesis
    using h4 ne R(1) R(7) by (simp add: sample_errors initial_def)
qed

text \<open>
  The callback looks for "429" in the message only: a failure with status
  RESOURCE_EXHAUSTED and no "429" in its message is skipped like any other failure,
  although \<open>withRetry\<close> and the \<open>catch\<close> block of \<open>handleGenerate\<close> treat that status as a
  rate limit.
\<close>

lemma resource_exhausted_item_is_skipped:
  "generateSingleAsset world_c2x 0 ''a'' STICKER = Inl exhausted \<and>
   isRateLimit exhausted \<and>
   fetchLog (handleGenerate world_c2x ''cat'' STICKER initial) = [(0, ''a''), (1, ''b'')] \<and>
   length (newAssets (handleGenerate world_c2x ''cat'' STICKER initial)) = 1 \<and>
   error (handleGenerate world_c2x ''cat'' STICKER initial) = None"
proof -
  have h1: "expanded world_c2x ''cat'' = Inr [''a'', ''b'']"
    by (simp add: world_c2x_def sampleWorld_expanded)
  have h3: "\<forall>k<length [''a'', ''b'']. \<not> abortsAt world_c2x STICKER [''a'', ''b''] k"
    by (simp add: world_c2x_def sample_abortsAt fetch_c2x_def sample_errors less_Suc_eq)
  have g: "got world_c2x STICKER [''a'', ''b''] 0 = []"
    "length (got world_c2x STICKER [''a'', ''b''] 1) = 1"
    by (simp_all add: world_c2x_def sample_got(1)[of _ _ "''url''"]
        sample_got(2)[of _ _ exhausted] fetch_c2x_def sample_errors)
  have up: "[0..<length [''a'', ''b'']] = [0, 1]" by (simp add: upt_conv_Cons)
  note R = run_completed_fields[OF h1 h3, where st = initial]
  have f0: "generateSingleAsset world_c2x 0 ''a'' STICKER = Inl exhausted"
    by (simp add: world_c2x_def sampleWorld_fetch fetch_c2x_def)
  have n: "concat (map (got world_c2x STICKER [''a'', ''b'']) [0, 1]) \<noteq> []"
    using g by (cases "got world_c2x STICKER [''a'', ''b''] 1") simp_all
  have l: "length (concat (map (got world_c2x STICKER [''a'', ''b'']) [0, 1])) = 1"
    using g by simp
  show ?thesis
    using f0 g n l R(1) R(2) R(7) unfolding up by (simp add: sample_errors initial_def)
qed

section \<open>Failures that do not stop the run\<close>

lemma abortsAt_iff:
  "abortsAt w type vs j =
     (\<exists>e. generateSingleAsset w j (vs ! j) type = Inl e \<and> messageIncludes e ''429'')"
  by (auto simp: abortsAt_def split: sum.splits)

text \<open>An item is fetched if no item before it stops the run.\<close>

lemma reached:
  assumes "expanded w bp = Inr vs" and "j < length vs" and "\<forall>k<j. \<not> abortsAt w type vs k"
  shows "(j, vs ! j) \<in> set (fetchLog (handleGenerate w bp type st))"
  using assms(1)
proof (cases rule: handleGenerate_cases[where type = type and st = st])
  case completed
  then have "\<forall>k<length vs. \<not> abortsAt w type vs k" by simp
  then show ?thesis
    using run_completed_fields(1)[OF assms(1), of type st] assms(2) by simp
next
  case (stopped m e)
  have "abortsAt w type vs m" using stopped(3,4) by (auto simp: abortsAt_iff)
  then have jm: "j \<le> m" using assms(3) by (meson not_le_imp_less)
  have "\<forall>k<m. \<not> abortsAt w type vs k" using stopped(2) by simp
  then show ?thesis
    using run_stopped_fields(1)[OF assms(1) stopped(1) _ stopped(3,4), of st] jm
    by (simp del: upt_Suc)
qed

lemma processItem_skip:
  assumes "i < length vs" and "generateSingleAsset w i (vs ! i) type = Inl e"
    and "\<not> messageIncludes e ''429''"
  shows "got w type vs i = []" and "\<not> abortsAt w type vs i"
    and "fst (processItem w type vs i s) = None"
    and "newAssets (snd (processItem w type vs i s)) = newAssets s"
    and "assets (snd (processItem w type vs i s)) = assets s"
proof -
  show g: "got w type vs i = []"
    using assms(2,3) by (simp add: got_def assetOf_def fetchVariation_def)
  show na: "\<not> abortsAt w type vs i" using assms(2,3) by (simp add: abortsAt_def)
  show "fst (processItem w type vs i s) = None"
    by (rule processItem_continue(1)[OF assms(1) na])
  show "newAssets (snd (processItem w type vs i s)) = newAssets s"
    using processItem_continue(3)[OF assms(1) na, of s] g by simp
  show "assets (snd (processItem w type vs i s)) = assets s"
    using processItem_continue(4)[OF assms(1) na, of s] g by simp
qed

text \<open>
  C3. In a run whose variations are \<open>vs\<close> and that reaches item \<open>i\<close>, if the fetch of item
  \<open>i\<close> fails and the failure is not classified rate-limit, then the item adds no asset
  (to \<open>newAssets\<close> or to \<open>assets\<close>, whatever the state \<open>s\<close> it is processed in) and the loop
  goes on: every later item \<open>j\<close> is fetched. Only a rate-limit stop at an item between \<open>i\<close>
  and \<open>j\<close>, the rule of C2, keeps \<open>j\<close> from being fetched; the failure of item \<open>i\<close> never
  does.
\<close>

theorem other_failure_skips_item:
  assumes "expanded w bp = Inr vs" and "i < length vs"
    and "\<forall>k<i. \<not> abortsAt w type vs k"
    and "generateSingleAsset w i (vs ! i) type = Inl e"
    and "\<not> isRateLimit e"
  shows "got w type vs i = [] \<and>
     fst (processItem w type vs i s) = None \<and>
     newAssets (snd (processItem w type vs i s)) = newAssets s \<and>
     assets (snd (processItem w type vs i s)) = assets s \<and>
     (\<forall>j. i < j \<and> j < length vs \<and> (\<forall>k. i < k \<and> k < j \<longrightarrow> \<not> abortsAt w type vs k)
        \<longrightarrow> (j, vs ! j) \<in> set (fetchLog (handleGenerate w bp type st)))"
proof -
  have n429: "\<not> messageIncludes e ''429''" using assms(5) by (simp add: isRateLimit_def)
  note S = processItem_skip[OF assms(2,4) n429]
  have later: "\<forall>j. i < j \<and> j < length vs \<and> (\<forall>k. i < k \<and> k < j \<longrightarrow> \<not> abortsAt w type vs k)
        \<longrightarrow> (j, vs ! j) \<in> set (fetchLog (handleGenerate w bp type st))"
  proof (intro allI impI)
    fix j
    assume a: "i < j \<and> j < length vs \<and> (\<forall>k. i < k \<and> k < j \<longrightarrow> \<not> abortsAt w type vs k)"
    have "\<forall>k<j. \<not> abortsAt w type vs k"
    proof (intro allI impI)
      fix k assume "k < j"
      show "\<not> abortsAt w type vs k"
      proof (cases "k < i")
        case True then show ?thesis using assms(3) by simp
      next
        case False
        show ?thesis
        proof (cases "k = i")
          case True then show ?thesis using S(2) by simp
        next
          case False
          with \<open>\<not> k < i\<close> have "i < k" by simp
          then show ?thesis using a \<open>k < j\<close> by simp
        qed
      qed
    qed
    then show "(j, vs ! j) \<in> set (fetchLog (handleGenerate w bp type st))"
      using reached[OF assms(1)] a by simp
  qed
  show ?thesis using S(1,3,4,5) later by (intro conjI)
qed

theorem other_failure_skips_item_witness:
  "got world_c3w STICKER [''a'', ''b''] 0 = [] \<and>
   (1, ''b'') \<in> set (fetchLog (handleGenerate world_c3w ''cat'' STICKER initial))"
proof -
  have h1: "expanded world_c3w ''cat'' = Inr [''a'', ''b'']"
    by (simp add: world_c3w_def sampleWorld_expanded)
  have h2: "0 < length [''a'', ''b'']" by simp
  have h3: "\<forall>k<0. \<not> abortsAt world_c3w STICKER [''a'', ''b''] k" by simp
  have h4: "generateSingleAsset world_c3w 0 ([''a'', ''b''] ! 0) STICKER = Inl badRequest"
    by (simp add: world_c3w_def sampleWorld_fetch fetch_c3w_def)
  have h5: "\<not> isRateLimit badRequest" by (rule flaky_facts(2))
  show ?thesis
    using other_failure_skips_item[OF h1 h2 h3 h4 h5, where st = initial and s = initial]
    by simp
qed

section \<open>Double-precision arithmetic\<close>

lemma roundTiesToEven_near: "\<bar>of_int (roundTiesToEven y) - y\<bar> \<le> 1 / 2"
proof -
  have "of_int \<lfloor>y\<rfloor> \<le> y" "y < of_int \<lfloor>y\<rfloor> + 1" by linarith+
  then show ?thesis by (auto simp: roundTiesToEven_def Let_def)
qed

lemma roundTiesToEven_of_int [simp]: "roundTiesToEven (of_int z) = z"
  by (simp add: roundTiesToEven_def)

lemma roundTiesToEven_mono: "x \<le> y \<Longrightarrow> roundTiesToEven x \<le> roundTiesToEven y"
proof -
  assume le: "x \<le> y"
  have fx: "of_int \<lfloor>x\<rfloor> \<le> x" "x < of_int \<lfloor>x\<rfloor> + 1" by linarith+
  have fy: "of_int \<lfloor>y\<rfloor> \<le> y" "y < of_int \<lfloor>y\<rfloor> + 1" by linarith+
  have lo: "\<lfloor>x\<rfloor> \<le> roundTiesToEven x" "roundTiesToEven x \<le> \<lfloor>x\<rfloor> + 1"
    by (auto simp: roundTiesToEven_def Let_def)
  have loy: "\<lfloor>y\<rfloor> \<le> roundTiesToEven y"
    by (auto simp: roundTiesToEven_def Let_def)
  show ?thesis
  proof (cases "\<lfloor>x\<rfloor> = \<lfloor>y\<rfloor>")
    case True
    have "x - of_int \<lfloor>x\<rfloor> \<le> y - of_int \<lfloor>x\<rfloor>" using le by simp
    then show ?thesis using True by (auto simp: roundTiesToEven_def Let_def)
  next
    case False
    then have "\<lfloor>x\<rfloor> < \<lfloor>y\<rfloor>" using floor_mono[OF le] by simp
    then show ?thesis using lo loy by linarith
  qed
qed

lemma binadeBelow_bounds:
  "0 < x \<Longrightarrow> x < 1 \<Longrightarrow> 2 powi (binadeBelow x) \<le> x \<and> x < 2 powi (binadeBelow x + 1)"
proof (induction x rule: binadeBelow.induct)
  case (1 x)
  have unf: "binadeBelow x = binadeBelow (2 * x) - 1"
    using 1(2,3) by (subst binadeBelow.simps) simp
  show ?case
  proof (cases "2 * x < 1")
    case True
    have IH: "2 powi (binadeBelow (2 * x)) \<le> 2 * x \<and> 2 * x < 2 powi (binadeBelow (2 * x) + 1)"
      using 1(1) 1(2,3) True by simp
    have a: "(2::rat) powi (binadeBelow (2 * x)) = 2 * 2 powi (binadeBelow (2 * x) - 1)"
      by (simp add: power_int_diff)
    have b: "(2::rat) powi (binadeBelow (2 * x) + 1) = 2 * 2 powi (binadeBelow (2 * x))"
      by (simp add: power_int_add)
    show ?thesis unfolding unf using IH a b by simp
  next
    case False
    then have "binadeBelow (2 * x) = 0" by (subst binadeBelow.simps) simp
    then show ?thesis unfolding unf using False 1(3) by (simp add: power_int_minus)
  qed
qed

lemma binadeAbove_bounds:
  "1 \<le> x \<Longrightarrow> 2 powi (binadeAbove x) \<le> x \<and> x < 2 powi (binadeAbove x + 1)"
proof (induction x rule: binadeAbove.induct)
  case (1 x)
  show ?case
  proof (cases "2 \<le> x")
    case True
    have unf: "binadeAbove x = binadeAbove (x / 2) + 1"
      using True by (subst binadeAbove.simps) simp
    define P :: rat where "P = 2 powi (binadeAbove (x / 2))"
    have IH: "P \<le> x / 2 \<and> x / 2 < 2 powi (binadeAbove (x / 2) + 1)"
      unfolding P_def using 1(1)[OF True] True by simp
    have b: "(2::rat) powi (binadeAbove (x / 2) + 1) = 2 * P"
      "(2::rat) powi (binadeAbove (x / 2) + 1 + 1) = 4 * P"
      unfolding P_def by (simp_all add: power_int_add)
    have "2 * P \<le> x \<and> x < 4 * P" using IH unfolding b(1) by linarith
    then have "2 powi (binadeAbove (x / 2) + 1) \<le> x \<and> x < 2 powi (binadeAbove (x / 2) + 1 + 1)"
      unfolding b .
    then show ?thesis unfolding unf .
  next
    case False
    then have "binadeAbove x = 0" by (subst binadeAbove.simps) simp
    then show ?thesis using False 1(2) by simp
  qed
qed

lemma binade_bounds: "0 < x \<Longrightarrow> 2 powi (binade x) \<le> x \<and> x < 2 powi (binade x + 1)"
  using binadeBelow_bounds[of x] binadeAbove_bounds[of x] by (simp add: binade_def)


lemma toDouble_pos_unfold:
  "0 < x \<Longrightarrow> toDouble x =
     of_int (roundTiesToEven (x / 2 powi (binade x - 52))) * 2 powi (binade x - 52)"
  by (simp add: toDouble_def Let_def)

lemma scaled_range:
  assumes "0 < x"
  shows "2 ^ 52 \<le> x / 2 powi (binade x - 52)" and "x / 2 powi (binade x - 52) \<le> 2 ^ 53"
proof -
  define U :: rat where "U = 2 powi (binade x - 52)"
  have U: "0 < U" unfolding U_def by simp
  have a: "(2::rat) powi (binade x) = 2 ^ 52 * U"
    unfolding U_def by (simp add: power_int_diff)
  have b: "(2::rat) powi (binade x + 1) = 2 ^ 53 * U"
    unfolding U_def by (simp add: power_int_diff power_int_add)
  have "2 ^ 52 * U \<le> x" "x < 2 ^ 53 * U"
    using binade_bounds[OF assms] unfolding a b by simp_all
  then show "2 ^ 52 \<le> x / 2 powi (binade x - 52)" and "x / 2 powi (binade x - 52) \<le> 2 ^ 53"
    unfolding U_def[symmetric] using U by (simp_all add: pos_le_divide_eq pos_divide_le_eq)
qed

lemma toDouble_range:
  assumes "0 < x"
  shows "2 powi (binade x) \<le> toDouble x" and "toDouble x \<le> 2 powi (binade x + 1)"
proof -
  define U :: rat where "U = 2 powi (binade x - 52)"
  have U: "0 < U" unfolding U_def by simp
  have a: "(2::rat) powi (binade x) = 2 ^ 52 * U"
    unfolding U_def by (simp add: power_int_diff)
  have b: "(2::rat) powi (binade x + 1) = 2 ^ 53 * U"
    unfolding U_def by (simp add: power_int_diff power_int_add)
  have "roundTiesToEven (of_int (2 ^ 52)) \<le> roundTiesToEven (x / U)"
    unfolding U_def using scaled_range(1)[OF assms] by (intro roundTiesToEven_mono) simp
  then have lo: "2 ^ 52 \<le> roundTiesToEven (x / U)" by (simp only: roundTiesToEven_of_int)
  have "roundTiesToEven (x / U) \<le> roundTiesToEven (of_int (2 ^ 53))"
    unfolding U_def using scaled_range(2)[OF assms] by (intro roundTiesToEven_mono) simp
  then have hi: "roundTiesToEven (x / U) \<le> 2 ^ 53" by (simp only: roundTiesToEven_of_int)
  have lo': "(2 ^ 52 :: rat) \<le> of_int (roundTiesToEven (x / U))"
    using lo by (metis of_int_le_iff of_int_numeral of_int_power)
  have hi': "of_int (roundTiesToEven (x / U)) \<le> (2 ^ 53 :: rat)"
    using hi by (metis of_int_le_iff of_int_numeral of_int_power)
  have t: "toDouble x = of_int (roundTiesToEven (x / U)) * U"
    unfolding U_def by (rule toDouble_pos_unfold[OF assms])
  show "2 powi (binade x) \<le> toDouble x"
    unfolding a t using lo' U by (rule mult_right_mono[OF _ less_imp_le])
  show "toDouble x \<le> 2 powi (binade x + 1)"
    unfolding b t using hi' U by (rule mult_right_mono[OF _ less_imp_le])
qed

lemma toDouble_pos: "0 < x \<Longrightarrow> 0 < toDouble x"
  using toDouble_range(1)[of x] zero_less_power_int[of "2::rat" "binade x"] by linarith

lemma toDouble_nonneg: "0 \<le> toDouble x"
  using toDouble_pos[of x] by (cases "0 < x") (simp_all add: toDouble_def)

lemma binade_mono:
  assumes "0 < x" and "x \<le> y"
  shows "binade x \<le> binade y"
proof (rule ccontr)
  assume "\<not> binade x \<le> binade y"
  then have "binade y + 1 \<le> binade x" by simp
  then have "(2::rat) powi (binade y + 1) \<le> 2 powi (binade x)"
    by (intro power_int_increasing) simp_all
  moreover have "y < 2 powi (binade y + 1)" using binade_bounds[of y] assms by simp
  moreover have "2 powi (binade x) \<le> x" using binade_bounds[OF assms(1)] by simp
  ultimately show False using assms(2) by linarith
qed

lemma toDouble_mono:
  assumes "x \<le> y"
  shows "toDouble x \<le> toDouble y"
proof (cases "0 < x")
  case False
  then have "toDouble x = 0" by (simp add: toDouble_def)
  then show ?thesis using toDouble_nonneg[of y] by simp
next
  case True
  then have y: "0 < y" using assms by simp
  show ?thesis
  proof (cases "binade x = binade y")
    case same: True
    define U :: rat where "U = 2 powi (binade y - 52)"
    have U: "0 < U" unfolding U_def by simp
    have "x / U \<le> y / U" using assms U by (simp add: divide_right_mono)
    then have "roundTiesToEven (x / U) \<le> roundTiesToEven (y / U)" by (rule roundTiesToEven_mono)
    then have "(of_int (roundTiesToEven (x / U)) :: rat) \<le> of_int (roundTiesToEven (y / U))"
      by simp
    then have "of_int (roundTiesToEven (x / U)) * U \<le> of_int (roundTiesToEven (y / U)) * U"
      using U by (rule mult_right_mono[OF _ less_imp_le])
    then show ?thesis
      unfolding toDouble_pos_unfold[OF True] toDouble_pos_unfold[OF y] same U_def .
  next
    case False
    then have "binade x + 1 \<le> binade y" using binade_mono[OF True assms] by simp
    then have "(2::rat) powi (binade x + 1) \<le> 2 powi (binade y)"
      by (intro power_int_increasing) simp_all
    then show ?thesis using toDouble_range(2)[OF True] toDouble_range(1)[OF y] by linarith
  qed
qed

lemma toDouble_error:
  assumes "0 < x"
  shows "\<bar>toDouble x - x\<bar> \<le> x / 2 ^ 53"
proof -
  define U :: rat where "U = 2 powi (binade x - 52)"
  have U: "0 < U" unfolding U_def by simp
  have a: "(2::rat) powi (binade x) = 2 ^ 52 * U"
    unfolding U_def by (simp add: power_int_diff)
  have xl: "2 ^ 52 * U \<le> x" using binade_bounds[OF assms] unfolding a by simp
  define r :: rat where "r = of_int (roundTiesToEven (x / U))"
  have t: "toDouble x = r * U"
    unfolding U_def r_def by (rule toDouble_pos_unfold[OF assms])
  have n: "\<bar>r - x / U\<bar> \<le> 1 / 2" unfolding r_def by (rule roundTiesToEven_near)
  have "toDouble x - x = (r - x / U) * U" unfolding t using U by (simp add: field_simps)
  then have "\<bar>toDouble x - x\<bar> = \<bar>r - x / U\<bar> * U" using U by (simp add: abs_mult)
  also have "\<dots> \<le> (1 / 2) * U" using n U by (rule mult_right_mono[OF _ less_imp_le])
  also have "\<dots> = (2 ^ 52 * U) / 2 ^ 53" by simp
  also have "\<dots> \<le> x / 2 ^ 53" using xl by (rule divide_right_mono) simp
  finally show ?thesis .
qed

section \<open>Progress\<close>

lemma percent_error:
  assumes "0 < k" and "k \<le> n"
  shows "\<bar>toDouble (toDouble (of_nat k / of_nat n) * 100) - 100 * of_nat k / of_nat n\<bar>
           \<le> 201 / 2 ^ 53"
proof -
  define q :: rat where "q = of_nat k / of_nat n"
  define q' where "q' = toDouble q"
  define p where "p = q' * 100"
  have n: "0 < n" using assms by simp
  have q: "0 < q" "q \<le> 1" unfolding q_def using assms n by simp_all
  have e1: "\<bar>q' - q\<bar> \<le> q / 2 ^ 53" unfolding q'_def by (rule toDouble_error[OF q(1)])
  have "q / 2 ^ 53 \<le> 1 / 2 ^ 53" using q(2) by (rule divide_right_mono) simp
  then have e1': "\<bar>q' - q\<bar> \<le> 1 / 2 ^ 53" using e1 by linarith
  have q'pos: "0 < q'" unfolding q'_def by (rule toDouble_pos[OF q(1)])
  have q'le: "q' \<le> 1 + 1 / 2 ^ 53" using e1' q(2) by linarith
  have p: "0 < p" unfolding p_def using q'pos by simp
  have e2: "\<bar>toDouble p - p\<bar> \<le> p / 2 ^ 53" by (rule toDouble_error[OF p])
  have "p \<le> 101" unfolding p_def using q'le by simp
  then have "p / 2 ^ 53 \<le> 101 / 2 ^ 53" by (rule divide_right_mono) simp
  then have e2': "\<bar>toDouble p - p\<bar> \<le> 101 / 2 ^ 53" using e2 by linarith
  have "\<bar>p - 100 * q\<bar> = 100 * \<bar>q' - q\<bar>" unfolding p_def by (simp add: abs_if)
  then have e3: "\<bar>p - 100 * q\<bar> \<le> 100 / 2 ^ 53" using e1' by simp
  have "\<bar>toDouble p - 100 * q\<bar> \<le> 201 / 2 ^ 53" using e2' e3 by linarith
  then show ?thesis unfolding p_def q'_def q_def by simp
qed

lemma floor_near:
  fixes a b :: nat and d :: rat
  assumes "0 < b" and "\<bar>d - of_nat a / of_nat b\<bar> \<le> e" and "e < 1 / of_nat b" and "e < 1"
  shows "\<not> b dvd a \<Longrightarrow> \<lfloor>d\<rfloor> = int (a div b)"
    and "\<lfloor>d\<rfloor> = int (a div b) \<or> \<lfloor>d\<rfloor> = int (a div b) - 1"
proof -
  define j where "j = a div b"
  define f where "f = a mod b"
  define F :: rat where "F = of_nat f / of_nat b"
  define B :: rat where "B = 1 / of_nat b"
  define J :: rat where "J = of_int (int j)"
  have ab: "a = j * b + f" unfolding j_def f_def by simp
  have fb: "f < b" unfolding f_def using assms(1) by simp
  have bpos: "(0::rat) < of_nat b" using assms(1) by simp
  have X: "(of_nat a / of_nat b :: rat) = J + F"
    unfolding ab F_def J_def using assms(1) by (simp add: field_simps)
  have f1: "F \<le> 1 - B"
  proof -
    have "f + 1 \<le> b" using fb by simp
    then have "(of_nat (f + 1) :: rat) \<le> of_nat b" by (simp only: of_nat_le_iff)
    then have "(of_nat f + 1) / of_nat b \<le> (of_nat b :: rat) / of_nat b"
      by (intro divide_right_mono) simp_all
    then show ?thesis unfolding F_def B_def using bpos by (simp add: field_simps)
  qed
  have f0: "0 \<le> F" unfolding F_def by simp
  have eB: "e < B" unfolding B_def by (rule assms(3))
  have dl: "J + F - e \<le> d" "d \<le> J + F + e"
    using assms(2) unfolding X by linarith+
  have hi: "d < J + 1" using dl(2) f1 eB by linarith
  show "\<lfloor>d\<rfloor> = int (a div b)" if nd: "\<not> b dvd a"
  proof -
    have "f \<noteq> 0" using nd unfolding f_def by (simp add: dvd_eq_mod_eq_0)
    then have "1 \<le> f" by simp
    then have "(1 :: rat) \<le> of_nat f" by simp
    then have "1 / of_nat b \<le> (of_nat f :: rat) / of_nat b"
      by (intro divide_right_mono) simp_all
    then have "B \<le> F" unfolding B_def F_def .
    then have "J \<le> d" using dl(1) eB by linarith
    then have "of_int (int j) \<le> d" "d < of_int (int j) + 1"
      using hi unfolding J_def by simp_all
    then show ?thesis unfolding j_def[symmetric] by (rule floor_unique)
  qed
  show "\<lfloor>d\<rfloor> = int (a div b) \<or> \<lfloor>d\<rfloor> = int (a div b) - 1"
  proof -
    have "J - 1 \<le> d" using dl(1) f0 assms(4) by linarith
    then have lo: "of_int (int j - 1) \<le> d" unfolding J_def by simp
    have hi': "d < of_int (int j + 1)" using hi unfolding J_def by simp
    have "int j - 1 \<le> \<lfloor>d\<rfloor>" using lo by (simp only: le_floor_iff)
    moreover have "\<lfloor>d\<rfloor> < int j + 1" using hi' by (simp only: floor_less_iff)
    ultimately show ?thesis unfolding j_def[symmetric] by linarith
  qed
qed

lemma round_as_div:
  assumes "0 < n"
  shows "round (100 * of_nat k / of_nat n :: rat) = int ((200 * k + n) div (2 * n))"
proof -
  have "(100 * of_nat k / of_nat n :: rat) + 1 / 2 = of_nat (200 * k + n) / of_nat (2 * n)"
    using assms by (simp add: field_simps)
  then have "round (100 * of_nat k / of_nat n :: rat) = \<lfloor>(of_nat (200 * k + n) / of_nat (2 * n) :: rat)\<rfloor>"
    unfolding round_def by simp
  also have "\<dots> = int ((200 * k + n) div (2 * n))"
    by (simp only: floor_divide_of_nat_eq of_int_of_nat_eq)
  finally show ?thesis .
qed

lemma progressValue_doublePercent: "progressValue i b n = doublePercent (i + b) n"
  by (simp add: progressValue_def doublePercent_def)

text \<open>
  The progress against the exact percentage: equal unless the percentage lies halfway
  between two integers, and then equal or one less.
\<close>

lemma doublePercent_close:
  assumes "0 < k" and "k \<le> n" and "n < 2 ^ 32"
  shows "\<not> halfway k n \<Longrightarrow> doublePercent k n = exactPercent k n"
    and "doublePercent k n = exactPercent k n \<or> doublePercent k n = exactPercent k n - 1"
proof -
  define d where "d = toDouble (toDouble (of_nat k / of_nat n) * 100) + 1 / 2"
  have n: "0 < n" using assms(1,2) by linarith
  have pv: "doublePercent k n = min 100 \<lfloor>d\<rfloor>"
    by (simp add: doublePercent_def Math_round_def d_def)
  have X: "(100 * of_nat k / of_nat n :: rat) + 1 / 2 = of_nat (200 * k + n) / of_nat (2 * n)"
    using n by (simp add: field_simps)
  have "\<bar>d - (100 * of_nat k / of_nat n + 1 / 2)\<bar> \<le> 201 / 2 ^ 53"
    unfolding d_def using percent_error[OF assms(1,2)] by simp
  then have e: "\<bar>d - of_nat (200 * k + n) / of_nat (2 * n)\<bar> \<le> 201 / 2 ^ 53"
    unfolding X .
  have b2: "0 < 2 * n" using n by simp
  have "(of_nat (2 * n) :: rat) < 2 * 2 ^ 32"
  proof -
    have "2 * n < 2 * 2 ^ 32" using assms(3) by simp
    then have "(of_nat (2 * n) :: rat) < of_nat (2 * 2 ^ 32)" by (simp only: of_nat_less_iff)
    then show ?thesis by simp
  qed
  then have "(201 / 2 ^ 53 :: rat) * of_nat (2 * n) < 1" using n by simp
  then have s1: "(201 / 2 ^ 53 :: rat) < 1 / of_nat (2 * n)"
    using b2 by (simp add: pos_less_divide_eq)
  have s2: "(201 / 2 ^ 53 :: rat) < 1" by simp
  note F = floor_near[OF b2 e s1 s2]
  have r: "exactPercent k n = min 100 (int ((200 * k + n) div (2 * n)))"
    unfolding exactPercent_def by (simp only: round_as_div[OF n])
  show "doublePercent k n = exactPercent k n" if "\<not> halfway k n"
    using F(1) that unfolding pv r halfway_def by simp
  have le: "(200 * k + n) div (2 * n) \<le> 100"
  proof -
    have "200 * k + n < 2 * n * 101" using assms(2) n by simp
    then have "(200 * k + n) div (2 * n) < 101" using b2 by (simp add: div_less_iff_less_mult)
    then show ?thesis by simp
  qed
  show "doublePercent k n = exactPercent k n \<or> doublePercent k n = exactPercent k n - 1"
    using F(2) le unfolding pv r by auto
qed

lemma progressValue_mono: "k \<le> k' \<Longrightarrow> progressValue k b n \<le> progressValue k' b n"
proof -
  assume le: "k \<le> k'"
  have "(of_nat (k + b) / of_nat n :: rat) \<le> of_nat (k' + b) / of_nat n"
    using le by (intro divide_right_mono) simp_all
  then have "toDouble (of_nat (k + b) / of_nat n) \<le> toDouble (of_nat (k' + b) / of_nat n)"
    by (rule toDouble_mono)
  then have "toDouble (of_nat (k + b) / of_nat n) * 100 \<le> toDouble (of_nat (k' + b) / of_nat n) * 100"
    by (rule mult_right_mono) simp
  then have "toDouble (toDouble (of_nat (k + b) / of_nat n) * 100) \<le>
      toDouble (toDouble (of_nat (k' + b) / of_nat n) * 100)"
    by (rule toDouble_mono)
  then have "toDouble (toDouble (of_nat (k + b) / of_nat n) * 100) + 1 / 2 \<le>
      toDouble (toDouble (of_nat (k' + b) / of_nat n) * 100) + 1 / 2"
    by (rule add_right_mono)
  then have "Math_round (toDouble (toDouble (of_nat (k + b) / of_nat n) * 100)) \<le>
      Math_round (toDouble (toDouble (of_nat (k' + b) / of_nat n) * 100))"
    unfolding Math_round_def by (rule floor_mono)
  then show ?thesis unfolding progressValue_def by (rule min.mono[OF order_refl])
qed

lemma progressValue_range: "0 \<le> progressValue k b n \<and> progressValue k b n \<le> 100"
proof -
  have "(0::rat) \<le> toDouble (toDouble (of_nat (k + b) / of_nat n) * 100) + 1 / 2"
    using toDouble_nonneg[of "toDouble (of_nat (k + b) / of_nat n) * 100"] by simp
  then have "0 \<le> Math_round (toDouble (toDouble (of_nat (k + b) / of_nat n) * 100))"
    unfolding Math_round_def by (simp only: zero_le_floor)
  then show ?thesis by (simp add: progressValue_def)
qed

lemma progress_sorted: "sorted (0 # map (\<lambda>k. progressValue k 1 n) [0..<m])"
proof -
  have "sorted (map (\<lambda>k. progressValue k 1 n) [0..<m])"
    by (simp add: sorted_iff_nth_mono progressValue_mono del: One_nat_def)
  then show ?thesis using progressValue_range[of _ 1 n] by simp
qed

text \<open>What the values given to \<open>setProgress\<close> in a run look like when \<open>m\<close> items were processed.\<close>

lemma progress_shape:
  assumes "PL = P0 @ [0] @ map (\<lambda>k. progressValue k 1 n) [0..<m] @ [0]"
  shows "length (drop (length P0) PL) = m + 2"
    and "hd (drop (length P0) PL) = 0"
    and "last (drop (length P0) PL) = 0"
    and "sorted (butlast (drop (length P0) PL))"
    and "\<forall>k. 1 \<le> k \<and> k \<le> m \<longrightarrow> drop (length P0) PL ! k = doublePercent k n"
proof -
  have d: "drop (length P0) PL = 0 # map (\<lambda>k. progressValue k 1 n) [0..<m] @ [0]"
    using assms by simp
  show "length (drop (length P0) PL) = m + 2" by (simp add: d)
  show "hd (drop (length P0) PL) = 0" by (simp add: d)
  show "last (drop (length P0) PL) = 0" by (simp add: d)
  have "butlast (drop (length P0) PL) = 0 # map (\<lambda>k. progressValue k 1 n) [0..<m]"
    unfolding d by (simp add: butlast_append)
  then show "sorted (butlast (drop (length P0) PL))" using progress_sorted[of n m] by simp
  show "\<forall>k. 1 \<le> k \<and> k \<le> m \<longrightarrow> drop (length P0) PL ! k = doublePercent k n"
  proof (intro allI impI)
    fix k assume a: "1 \<le> k \<and> k \<le> m"
    then obtain k' where k': "k = Suc k'" "k' < m" by (cases k) auto
    have "drop (length P0) PL ! k = (map (\<lambda>k. progressValue k 1 n) [0..<m] @ [0]) ! k'"
      unfolding d k' by simp
    also have "\<dots> = progressValue k' 1 n" using k' by (simp add: nth_append)
    finally show "drop (length P0) PL ! k = doublePercent k n"
      by (simp add: progressValue_doublePercent k')
  qed
qed

lemma progress_after:
  assumes "1 \<le> k" and "k \<le> length vs" and "\<forall>j<k. \<not> abortsAt w type vs j"
  shows "progress (advance w type vs 0 k s) = doublePercent k (length vs)"
proof -
  obtain k' where k': "k = Suc k'" using assms(1) by (cases k) auto
  have na: "\<forall>j. 0 \<le> j \<and> j < k \<longrightarrow> \<not> abortsAt w type vs j" using assms(3) by simp
  have "progress (advance w type vs 0 k s) = progressValue (k - 1) 1 (length vs)"
    using advance_fields[OF le0 assms(2) na, of s] assms(1) by simp
  then show ?thesis by (simp add: k' progressValue_doublePercent)
qed

text \<open>
  C5 (as amended). In a run over the \<open>n\<close> variations \<open>vs\<close>, let \<open>L\<close> be the values the run gives
  to \<open>setProgress\<close>. \<open>L\<close> starts with 0 and ends with 0, and the progress is 0 when the run
  is over. Between the two there is one value for each item processed (fetched and not
  stopping the run, whether the fetch succeeded or was skipped), as many as the run
  called \<open>setAssets\<close>, and \<open>L\<close> without its last element is non-decreasing. The \<open>k\<close>-th of
  these values, which is also the progress in the state after items \<open>0, \<dots>, k - 1\<close>, is
  what the code's expression gives in double precision for \<open>k\<close> of \<open>n\<close>. For \<open>n\<close> below
  \<open>2 ^ 32\<close> that is \<open>round (100 * k / n)\<close> capped at 100 unless \<open>100 * k / n\<close> lies halfway
  between two integers, and then it is that value or one less.
\<close>

theorem progress_spec:
  assumes "expanded w bp = Inr vs"
  shows "let fin = handleGenerate w bp type st;
             L = drop (length (progressLog st)) (progressLog fin);
             n = length vs
         in progress fin = 0 \<and> 2 \<le> length L \<and> hd L = 0 \<and> last L = 0 \<and>
            sorted (butlast L) \<and>
            length L - 2 = length (assetsLog fin) - length (assetsLog st) \<and>
            length L - 2 \<le> n \<and>
            (\<forall>k. 1 \<le> k \<and> k \<le> length L - 2 \<longrightarrow> L ! k = doublePercent k n) \<and>
            (\<forall>k. 1 \<le> k \<and> k \<le> n \<and> (\<forall>j<k. \<not> abortsAt w type vs j) \<longrightarrow>
               progress (advance w type vs 0 k (begin_run st)) = doublePercent k n) \<and>
            (\<forall>k. 1 \<le> k \<and> k \<le> n \<and> n < 2 ^ 32 \<longrightarrow>
               (doublePercent k n = exactPercent k n \<or>
                doublePercent k n = exactPercent k n - 1) \<and>
               (\<not> halfway k n \<longrightarrow> doublePercent k n = exactPercent k n))"
proof -
  define fin where "fin = handleGenerate w bp type st"
  define L where "L = drop (length (progressLog st)) (progressLog fin)"
  have "\<exists>m. m \<le> length vs \<and>
      progressLog fin =
        progressLog st @ [0] @ map (\<lambda>k. progressValue k 1 (length vs)) [0..<m] @ [0] \<and>
      length (assetsLog fin) = length (assetsLog st) + m \<and> progress fin = 0"
    using assms
  proof (cases rule: handleGenerate_cases[where type = type and st = st])
    case completed
    then have na: "\<forall>k<length vs. \<not> abortsAt w type vs k" by simp
    note R = run_completed_fields[OF assms na, of st]
    show ?thesis unfolding fin_def using R(4,5,6) by (intro exI[of _ "length vs"]) simp
  next
    case (stopped m e)
    have na: "\<forall>k<m. \<not> abortsAt w type vs k" using stopped(2) by simp
    note R = run_stopped_fields[OF assms stopped(1) na stopped(3,4), of st]
    show ?thesis unfolding fin_def using R(4,5,6) stopped(1) by (intro exI[of _ m]) simp
  qed
  then obtain m where m: "m \<le> length vs"
    "progressLog fin =
        progressLog st @ [0] @ map (\<lambda>k. progressValue k 1 (length vs)) [0..<m] @ [0]"
    "length (assetsLog fin) = length (assetsLog st) + m" "progress fin = 0"
    by blast
  note P = progress_shape[OF m(2), folded L_def]
  have c1: "2 \<le> length L" using P(1) by simp
  have c2: "length L - 2 = length (assetsLog fin) - length (assetsLog st)"
    using P(1) m(3) by simp
  have c3: "length L - 2 \<le> length vs" using P(1) m(1) by simp
  have c4: "\<forall>k. 1 \<le> k \<and> k \<le> length L - 2 \<longrightarrow> L ! k = doublePercent k (length vs)"
    using P(5) P(1) by simp
  have c5: "\<forall>k. 1 \<le> k \<and> k \<le> length vs \<and> (\<forall>j<k. \<not> abortsAt w type vs j) \<longrightarrow>
               progress (advance w type vs 0 k (begin_run st)) = doublePercent k (length vs)"
    using progress_after by blast
  have c6: "\<forall>k. 1 \<le> k \<and> k \<le> length vs \<and> length vs < 2 ^ 32 \<longrightarrow>
               (doublePercent k (length vs) = exactPercent k (length vs) \<or>
                doublePercent k (length vs) = exactPercent k (length vs) - 1) \<and>
               (\<not> halfway k (length vs) \<longrightarrow>
                  doublePercent k (length vs) = exactPercent k (length vs))"
  proof (intro allI impI)
    fix k assume a: "1 \<le> k \<and> k \<le> length vs \<and> length vs < 2 ^ 32"
    then have k: "0 < k" "k \<le> length vs" "length vs < 2 ^ 32" by simp_all
    show "(doublePercent k (length vs) = exactPercent k (length vs) \<or>
                doublePercent k (length vs) = exactPercent k (length vs) - 1) \<and>
               (\<not> halfway k (length vs) \<longrightarrow>
                  doublePercent k (length vs) = exactPercent k (length vs))"
      using doublePercent_close[OF k] by blast
  qed
  show ?thesis
    unfolding Let_def fin_def[symmetric] L_def[symmetric]
    by (intro conjI m(4) c1 P(2) P(3) P(4) c2 c3 c4 c5 c6)
qed

lemma sample_got_ok:
  "f i = Inr u \<Longrightarrow> length (got (sampleWorld p f) t vs i) = 1"
  by (simp add: sample_got(1))

lemma percent_examples:
  "doublePercent 23 40 = 57" "doublePercent 1 3 = 33" "doublePercent 2 3 = 67"
  "doublePercent 3 3 = 100" "doublePercent 2 2 = 100" "doublePercent 1 2 = 50"
  "exactPercent 23 40 = 58" "exactPercent 2 3 = 67" "exactPercent 1 2 = 50"
  by code_simp+

lemma progress_examples:
  "progressValue 0 1 3 = 33" "progressValue 1 1 3 = 67" "progressValue 2 1 3 = 100"
  by code_simp+

theorem progress_spec_witness:
  "progress (handleGenerate world_c5 ''cat'' STICKER initial) = 0 \<and>
   progressLog (handleGenerate world_c5 ''cat'' STICKER initial) = [0, 33, 67, 100, 0] \<and>
   sorted (butlast (progressLog (handleGenerate world_c5 ''cat'' STICKER initial))) \<and>
   progressLog (handleGenerate world_c5 ''cat'' STICKER initial) ! 2 = doublePercent 2 3 \<and>
   doublePercent 2 3 = exactPercent 2 3"
proof -
  have h1: "expanded world_c5 ''cat'' = Inr [''a'', ''b'', ''c'']"
    by (simp add: world_c5_def sampleWorld_expanded)
  have len: "length [''a'', ''b'', ''c''] = 3" by simp
  have i0: "progressLog initial = []" by (simp add: initial_def)
  have T: "sorted (butlast (drop (length (progressLog initial))
        (progressLog (handleGenerate world_c5 ''cat'' STICKER initial))))"
      "progress (handleGenerate world_c5 ''cat'' STICKER initial) = 0"
      "length (drop (length (progressLog initial))
        (progressLog (handleGenerate world_c5 ''cat'' STICKER initial))) - 2 =
       length (assetsLog (handleGenerate world_c5 ''cat'' STICKER initial)) -
       length (assetsLog initial)"
      "\<forall>k. 1 \<le> k \<and> k \<le> length (drop (length (progressLog initial))
        (progressLog (handleGenerate world_c5 ''cat'' STICKER initial))) - 2 \<longrightarrow>
          drop (length (progressLog initial))
            (progressLog (handleGenerate world_c5 ''cat'' STICKER initial)) ! k =
          doublePercent k (length [''a'', ''b'', ''c''])"
      "\<forall>k. 1 \<le> k \<and> k \<le> length [''a'', ''b'', ''c''] \<and>
           length [''a'', ''b'', ''c''] < (2::nat) ^ 32 \<longrightarrow>
           (doublePercent k (length [''a'', ''b'', ''c'']) =
              exactPercent k (length [''a'', ''b'', ''c'']) \<or>
            doublePercent k (length [''a'', ''b'', ''c'']) =
              exactPercent k (length [''a'', ''b'', ''c'']) - 1) \<and>
           (\<not> halfway k (length [''a'', ''b'', ''c'']) \<longrightarrow>
              doublePercent k (length [''a'', ''b'', ''c'']) =
              exactPercent k (length [''a'', ''b'', ''c'']))"
    using progress_spec[OF h1, of STICKER initial] unfolding Let_def by blast+
  have nh: "\<not> halfway 2 3" by (simp add: halfway_def)
  have eq: "doublePercent 2 3 = exactPercent 2 3"
    using T(5)[rule_format, of 2] nh unfolding len by simp
  have na: "\<forall>k<length [''a'', ''b'', ''c'']. \<not> abortsAt world_c5 STICKER [''a'', ''b'', ''c''] k"
    by (simp add: world_c5_def sample_abortsAt(1)[of _ _ "''url''"] fetch_ok_def)
  have up: "[0..<3] = [0, 1, 2]" by (simp add: upt_conv_Cons)
  have "progressLog (handleGenerate world_c5 ''cat'' STICKER initial) =
      progressLog initial @ [0] @ map (\<lambda>k. progressValue k 1 3) [0, 1, 2] @ [0]"
    using run_completed_fields(5)[OF h1 na, of initial] unfolding len up .
  then have ev: "progressLog (handleGenerate world_c5 ''cat'' STICKER initial) =
      [0, 33, 67, 100, 0]"
    using progress_examples by (simp add: i0)
  have t2: "progressLog (handleGenerate world_c5 ''cat'' STICKER initial) ! 2 = doublePercent 2 3"
    using ev percent_examples(3) by simp
  show ?thesis using T(1,2) ev t2 eq by (simp add: i0)
qed

text \<open>
  Forty variations, every fetch succeeding: after item 23 the code sets the progress to
  57, since the double nearest to \<open>23 / 40\<close> times 100 rounds to a double just below
  57.5, whereas \<open>round (100 * 23 / 40)\<close> is 58.
\<close>

theorem progress_double_rounding_counterexample:
  "expanded world_c5x ''cat'' = Inr (replicate 40 ''x'') \<and>
   handleLoop world_c5x STICKER (replicate 40 ''x'') 0 (begin_run initial) =
     handleLoop world_c5x STICKER (replicate 40 ''x'') 23 state_c5x \<and>
   progress state_c5x = 57 \<and>
   min 100 (round (100 * 23 / 40 :: rat)) = 58 \<and>
   progress state_c5x \<noteq> min 100 (round (100 * 23 / 40 :: rat))"
proof -
  have h1: "expanded world_c5x ''cat'' = Inr (replicate 40 ''x'')"
    unfolding world_c5x_def by (rule sampleWorld_expanded') simp
  have na: "\<forall>k. 0 \<le> k \<and> k < 23 \<longrightarrow> \<not> abortsAt world_c5x STICKER (replicate 40 ''x'') k"
    by (simp add: world_c5x_def sample_abortsAt(1)[of _ _ "''url''"] fetch_ok_def)
  have l: "(23::nat) \<le> length (replicate 40 ''x'')" by simp
  have lp: "handleLoop world_c5x STICKER (replicate 40 ''x'') 0 (begin_run initial) =
     handleLoop world_c5x STICKER (replicate 40 ''x'') 23 state_c5x"
    unfolding state_c5x_def by (rule handleLoop_advance[OF le0 l na])
  have na': "\<forall>j<23. \<not> abortsAt world_c5x STICKER (replicate 40 ''x'') j" using na by simp
  have "progress state_c5x = doublePercent 23 (length (replicate 40 ''x''))"
    unfolding state_c5x_def by (rule progress_after[OF _ l na']) simp
  then have p: "progress state_c5x = 57" using percent_examples(1) by simp
  have r: "min 100 (round (100 * 23 / 40 :: rat)) = 58"
    using percent_examples(7) by (simp add: exactPercent_def)
  show ?thesis unfolding p r using h1 lp by simp
qed

section \<open>The assets of a run\<close>

lemma got_props:
  "length (got w type vs j) \<le> 1" "\<forall>a\<in>set (got w type vs j). prompt a = vs ! j"
  by (auto simp: got_def assetOf_def fetchVariation_def split: sum.splits option.splits)

lemma concat_got_length: "length (concat (map (got w type vs) [0..<m])) \<le> m"
proof (induction m)
  case 0
  show ?case by simp
next
  case (Suc m)
  then show ?case using got_props(1)[of w type vs m] by simp
qed

lemma concat_got_prompts:
  "m \<le> length vs \<Longrightarrow> \<forall>a\<in>set (concat (map (got w type vs) [0..<m])). prompt a \<in> set vs"
proof (induction m)
  case 0
  show ?case by simp
next
  case (Suc m)
  then show ?case using got_props(2)[of w type vs m] by auto
qed

text \<open>The shape of every run: \<open>m\<close> items are processed, and at most one more is fetched.\<close>

lemma run_shape:
  assumes "expanded w bp = Inr vs"
  shows "\<exists>m. m \<le> length vs \<and> (\<forall>k<m. \<not> abortsAt w type vs k) \<and>
     newAssets (handleGenerate w bp type st) = concat (map (got w type vs) [0..<m]) \<and>
     assets (handleGenerate w bp type st) =
       rev (concat (map (got w type vs) [0..<m])) @ assets st \<and>
     assetsLog (handleGenerate w bp type st) =
       assetsLog st @ map (\<lambda>k. rev (concat (map (got w type vs) [0..<Suc k])) @ assets st) [0..<m] \<and>
     (\<exists>f. m \<le> f \<and> f \<le> length vs \<and> (m = length vs \<or> f = Suc m) \<and>
        fetchLog (handleGenerate w bp type st) = fetchLog st @ map (\<lambda>k. (k, vs ! k)) [0..<f])"
  using assms
proof (cases rule: handleGenerate_cases[where type = type and st = st])
  case completed
  then have na: "\<forall>k<length vs. \<not> abortsAt w type vs k" by simp
  note R = run_completed_fields[OF assms na, of st]
  have f: "\<exists>f. length vs \<le> f \<and> f \<le> length vs \<and> (length vs = length vs \<or> f = Suc (length vs)) \<and>
        fetchLog (handleGenerate w bp type st) = fetchLog st @ map (\<lambda>k. (k, vs ! k)) [0..<f]"
    using R(1) by (intro exI[of _ "length vs"]) simp
  show ?thesis
    by (rule exI[of _ "length vs"]) (intro conjI le_refl na R(2) R(3) R(4) f)
next
  case (stopped m e)
  have na: "\<forall>k<m. \<not> abortsAt w type vs k" using stopped(2) by simp
  note R = run_stopped_fields[OF assms stopped(1) na stopped(3,4), of st]
  have f: "\<exists>f. m \<le> f \<and> f \<le> length vs \<and> (m = length vs \<or> f = Suc m) \<and>
        fetchLog (handleGenerate w bp type st) = fetchLog st @ map (\<lambda>k. (k, vs ! k)) [0..<f]"
    using R(1) stopped(1) by (intro exI[of _ "Suc m"]) simp
  have ml: "m \<le> length vs" using stopped(1) by simp
  show ?thesis
    by (rule exI[of _ m]) (intro conjI ml na R(2) R(3) R(4) f)
qed

text \<open>
  C7 (as amended). In every run whose variations are \<open>vs\<close>, successful or not, there are at
  most as many assets as variations, and each asset's prompt is one of \<open>vs\<close>. The number
  of assets is at most 20 when the expander returned at most 20 variations.
\<close>

theorem assets_come_from_variations:
  assumes "expanded w bp = Inr vs"
  shows "length (newAssets (handleGenerate w bp type st)) \<le> length vs \<and>
     (\<forall>a\<in>set (newAssets (handleGenerate w bp type st)). prompt a \<in> set vs) \<and>
     (length vs \<le> 20 \<longrightarrow> length (newAssets (handleGenerate w bp type st)) \<le> 20)"
proof -
  obtain m where m: "m \<le> length vs"
    "newAssets (handleGenerate w bp type st) = concat (map (got w type vs) [0..<m])"
    using run_shape[OF assms, of type st] by blast
  have l: "length (newAssets (handleGenerate w bp type st)) \<le> length vs"
    using concat_got_length[of w type vs m] m by simp
  have p: "\<forall>a\<in>set (newAssets (handleGenerate w bp type st)). prompt a \<in> set vs"
    using concat_got_prompts[OF m(1), of w type] m(2) by simp
  show ?thesis using l p by simp
qed

lemma all_got_length:
  "\<forall>k<m. length (got w type vs k) = 1 \<Longrightarrow> length (concat (map (got w type vs) [0..<m])) = m"
  by (induction m) simp_all

theorem assets_come_from_variations_witness:
  "length (newAssets (handleGenerate world_c7w ''cat'' STICKER initial)) \<le> 2 \<and>
   map prompt (newAssets (handleGenerate world_c7w ''cat'' STICKER initial)) = [''a'', ''b'']"
proof -
  have h1: "expanded world_c7w ''cat'' = Inr [''a'', ''b'']"
    by (simp add: world_c7w_def sampleWorld_expanded)
  have T: "length (newAssets (handleGenerate world_c7w ''cat'' STICKER initial)) \<le>
      length [''a'', ''b'']"
    using assets_come_from_variations[OF h1, of STICKER initial] by blast
  have na: "\<forall>k<length [''a'', ''b'']. \<not> abortsAt world_c7w STICKER [''a'', ''b''] k"
    by (simp add: world_c7w_def sample_abortsAt(1)[of _ _ "''url''"] fetch_ok_def)
  have g: "\<And>k. map prompt (got world_c7w STICKER [''a'', ''b''] k) = [[''a'', ''b''] ! k]"
    by (simp add: world_c7w_def sample_got(1)[of _ _ "''url''"] fetch_ok_def)
  have up: "[0..<length [''a'', ''b'']] = [0, 1]" by (simp add: upt_conv_Cons)
  have ev: "map prompt (newAssets (handleGenerate world_c7w ''cat'' STICKER initial)) =
      [''a'', ''b'']"
    unfolding run_completed_fields(2)[OF h1 na, of initial] up by (simp add: g)
  show ?thesis using T ev by simp
qed

text \<open>
  The parsed array is used as it is: when the service answers with 21 prompts and every
  fetch succeeds, the run ends without an error and with 21 assets.
\<close>

theorem more_assets_than_requested_counterexample:
  "expanded world_c7 ''cat'' = Inr (replicate 21 ''x'') \<and>
   error (handleGenerate world_c7 ''cat'' STICKER initial) = None \<and>
   length (newAssets (handleGenerate world_c7 ''cat'' STICKER initial)) = 21 \<and>
   \<not> length (newAssets (handleGenerate world_c7 ''cat'' STICKER initial)) \<le> 20"
proof -
  have h1: "expanded world_c7 ''cat'' = Inr (replicate 21 ''x'')"
    unfolding world_c7_def by (rule sampleWorld_expanded') simp
  have na: "\<forall>k<length (replicate 21 ''x''). \<not> abortsAt world_c7 STICKER (replicate 21 ''x'') k"
    by (simp add: world_c7_def sample_abortsAt(1)[of _ _ "''url''"] fetch_ok_def)
  have g: "\<forall>k<21. length (got world_c7 STICKER (replicate 21 ''x'') k) = 1"
    by (simp add: world_c7_def sample_got_ok[of _ _ "''url''"] fetch_ok_def)
  have l: "length (concat (map (got world_c7 STICKER (replicate 21 ''x'')) [0..<21])) = 21"
    by (rule all_got_length[OF g])
  have ne: "concat (map (got world_c7 STICKER (replicate 21 ''x'')) [0..<21]) \<noteq> []"
  proof
    assume a: "concat (map (got world_c7 STICKER (replicate 21 ''x'')) [0..<21]) = []"
    show False using l unfolding a by simp
  qed
  note R = run_completed_fields[OF h1 na, of initial]
  have n: "length (newAssets (handleGenerate world_c7 ''cat'' STICKER initial)) = 21"
    using R(2) l by simp
  have e: "error (handleGenerate world_c7 ''cat'' STICKER initial) = None"
    using R(7) ne by (simp only: length_replicate if_False)
  show ?thesis using h1 n e by simp
qed

text \<open>
  C6 (as amended). When the run reaches item \<open>i\<close> and its fetch succeeds, the run passes
  through a state in which \<open>i + 1\<close> fetches have been made and the progress is what the
  code's expression gives in double precision for \<open>i + 1\<close> of \<open>n\<close>: the count is that of the
  items processed so far, skipped ones included, and the assets appended so far can be
  fewer. For \<open>n\<close> below \<open>2 ^ 32\<close> the progress is \<open>round (100 * (i + 1) / n)\<close> capped at 100
  unless \<open>100 * (i + 1) / n\<close> lies halfway between two integers, and then it is that value
  or one less.
\<close>

theorem progress_counts_processed_items:
  assumes "i < length vs" and "\<forall>k<i. \<not> abortsAt w type vs k"
    and "generateSingleAsset w i (vs ! i) type = Inr u"
  shows "let s' = advance w type vs 0 (Suc i) (begin_run st); n = length vs in
     handleLoop w type vs 0 (begin_run st) = handleLoop w type vs (Suc i) s' \<and>
     progress s' = doublePercent (Suc i) n \<and>
     (n < 2 ^ 32 \<longrightarrow>
        (progress s' = exactPercent (Suc i) n \<or> progress s' = exactPercent (Suc i) n - 1) \<and>
        (\<not> halfway (Suc i) n \<longrightarrow> progress s' = exactPercent (Suc i) n)) \<and>
     length (fetchLog s') = length (fetchLog st) + Suc i \<and>
     newAssets s' = concat (map (got w type vs) [0..<Suc i]) \<and>
     length (newAssets s') \<le> Suc i"
proof -
  have ni: "\<not> abortsAt w type vs i" using assms(3) by (simp add: abortsAt_def)
  have na: "\<forall>k. 0 \<le> k \<and> k < Suc i \<longrightarrow> \<not> abortsAt w type vs k"
    using assms(2) ni by (simp add: less_Suc_eq)
  have na': "\<forall>j<Suc i. \<not> abortsAt w type vs j" using na by simp
  have il: "Suc i \<le> length vs" using assms(1) by simp
  note A = advance_fields[OF le0 il na, of "begin_run st"]
  have c1: "handleLoop w type vs 0 (begin_run st) =
      handleLoop w type vs (Suc i) (advance w type vs 0 (Suc i) (begin_run st))"
    by (rule handleLoop_advance[OF le0 il na])
  have c2: "progress (advance w type vs 0 (Suc i) (begin_run st)) =
      doublePercent (Suc i) (length vs)"
    by (rule progress_after[OF _ il na']) simp
  have c2': "length vs < 2 ^ 32 \<longrightarrow>
        (progress (advance w type vs 0 (Suc i) (begin_run st)) = exactPercent (Suc i) (length vs) \<or>
         progress (advance w type vs 0 (Suc i) (begin_run st)) =
           exactPercent (Suc i) (length vs) - 1) \<and>
        (\<not> halfway (Suc i) (length vs) \<longrightarrow>
           progress (advance w type vs 0 (Suc i) (begin_run st)) =
             exactPercent (Suc i) (length vs))"
  proof
    assume n: "length vs < 2 ^ 32"
    have z: "0 < Suc i" by simp
    show "(progress (advance w type vs 0 (Suc i) (begin_run st)) = exactPercent (Suc i) (length vs) \<or>
         progress (advance w type vs 0 (Suc i) (begin_run st)) =
           exactPercent (Suc i) (length vs) - 1) \<and>
        (\<not> halfway (Suc i) (length vs) \<longrightarrow>
           progress (advance w type vs 0 (Suc i) (begin_run st)) =
             exactPercent (Suc i) (length vs))"
      unfolding c2 using doublePercent_close[OF z il n] by blast
  qed
  have c3: "length (fetchLog (advance w type vs 0 (Suc i) (begin_run st))) =
      length (fetchLog st) + Suc i"
    using A by (simp add: begin_run_fields)
  have c4: "newAssets (advance w type vs 0 (Suc i) (begin_run st)) =
      concat (map (got w type vs) [0..<Suc i])"
    using A by (simp add: begin_run_fields)
  have c5: "length (newAssets (advance w type vs 0 (Suc i) (begin_run st))) \<le> Suc i"
    unfolding c4 by (rule concat_got_length)
  show ?thesis unfolding Let_def by (intro conjI c1 c2 c2' c3 c4 c5)
qed

lemma world_c6w_facts:
  "\<forall>k<1. \<not> abortsAt world_c6w STICKER [''a'', ''b''] k"
  "generateSingleAsset world_c6w 1 ([''a'', ''b''] ! 1) STICKER = Inr ''url''"
  by (simp_all add: world_c6w_def sample_abortsAt(2)[of _ _ badRequest] sampleWorld_fetch
      fetch_c6w_def sample_errors)

theorem progress_counts_processed_items_witness:
  "progress (advance world_c6w STICKER [''a'', ''b''] 0 (Suc 1) (begin_run initial)) = 100 \<and>
   length (fetchLog (advance world_c6w STICKER [''a'', ''b''] 0 (Suc 1) (begin_run initial))) = 2 \<and>
   length (newAssets (advance world_c6w STICKER [''a'', ''b''] 0 (Suc 1) (begin_run initial))) \<le> 2"
proof -
  have h1: "1 < length [''a'', ''b'']" by simp
  have len: "length [''a'', ''b''] = 2" by simp
  have T: "progress (advance world_c6w STICKER [''a'', ''b''] 0 (Suc 1) (begin_run initial)) =
        doublePercent (Suc 1) (length [''a'', ''b''])"
    "length (fetchLog (advance world_c6w STICKER [''a'', ''b''] 0 (Suc 1) (begin_run initial))) =
        length (fetchLog initial) + Suc 1"
    "length (newAssets (advance world_c6w STICKER [''a'', ''b''] 0 (Suc 1) (begin_run initial)))
        \<le> Suc 1"
    using progress_counts_processed_items[OF h1 world_c6w_facts, of initial]
    unfolding Let_def by blast+
  have s2: "Suc 1 = 2" by simp
  have r: "doublePercent (Suc 1) (length [''a'', ''b'']) = 100"
    unfolding len s2 by (rule percent_examples(5))
  have f0: "length (fetchLog initial) + Suc 1 = 2" by (simp add: initial_def)
  show ?thesis using T unfolding r f0 by simp
qed

lemma world_c6_facts:
  "\<forall>k. 0 \<le> k \<and> k < 2 \<longrightarrow> \<not> abortsAt world_c6 STICKER [''a'', ''b''] k"
  "generateSingleAsset world_c6 1 ''b'' STICKER = Inr ''url''"
  "got world_c6 STICKER [''a'', ''b''] 0 = []"
  "length (got world_c6 STICKER [''a'', ''b''] 1) = 1"
proof -
  have f: "fetch_c6 0 = Inl badRequest" "fetch_c6 1 = Inr ''url''"
    by (simp_all add: fetch_c6_def)
  show "\<forall>k. 0 \<le> k \<and> k < 2 \<longrightarrow> \<not> abortsAt world_c6 STICKER [''a'', ''b''] k"
  proof (intro allI impI)
    fix k :: nat assume "0 \<le> k \<and> k < 2"
    then have "k = 0 \<or> k = 1" by auto
    then show "\<not> abortsAt world_c6 STICKER [''a'', ''b''] k"
      using sample_abortsAt(1)[of fetch_c6 1 "''url''"] sample_abortsAt(2)[of fetch_c6 0 badRequest]
        f sample_errors(2)
      by (auto simp: world_c6_def)
  qed
  show "generateSingleAsset world_c6 1 ''b'' STICKER = Inr ''url''"
    using f(2) by (simp add: world_c6_def sampleWorld_fetch)
  show "got world_c6 STICKER [''a'', ''b''] 0 = []"
    unfolding world_c6_def
    using sample_got(2)[of fetch_c6 0 badRequest] f(1) sample_errors(2) by simp
  show "length (got world_c6 STICKER [''a'', ''b''] 1) = 1"
    unfolding world_c6_def
    using sample_got_ok[of fetch_c6 1 "''url''"] f(2) by simp
qed

text \<open>
  Two variations, the first fetch fails (not a rate limit) and the second succeeds:
  after the second the progress is 100, with one asset appended out of two.
\<close>

theorem progress_not_completed_count_counterexample:
  "generateSingleAsset world_c6 1 ''b'' STICKER = Inr ''url'' \<and>
   handleLoop world_c6 STICKER [''a'', ''b''] 0 (begin_run initial) = (None, state_c6) \<and>
   length (newAssets state_c6) = 1 \<and>
   progress state_c6 = 100 \<and>
   progress state_c6 \<noteq>
     min 100 (round (100 * of_nat (length (newAssets state_c6)) / of_nat (length [''a'', ''b'']) :: rat))"
proof -
  have l2: "(2::nat) \<le> length [''a'', ''b'']" by simp
  note A = advance_fields[OF le0 l2 world_c6_facts(1), of "begin_run initial", folded state_c6_def]
  have up: "[0..<2] = [0, 1]" by (simp add: upt_conv_Cons)
  have n: "length (newAssets state_c6) = 1"
    using A world_c6_facts(3,4) unfolding up by (simp add: begin_run_fields)
  have len: "length [''a'', ''b''] = 2" by simp
  have na2: "\<forall>j<2. \<not> abortsAt world_c6 STICKER [''a'', ''b''] j"
    using world_c6_facts(1) by simp
  have "progress state_c6 = doublePercent 2 (length [''a'', ''b''])"
    unfolding state_c6_def by (rule progress_after[OF _ l2 na2]) simp
  then have p: "progress state_c6 = 100"
    unfolding len by (simp only: percent_examples(5))
  have r: "min 100 (round (100 * of_nat 1 / of_nat (length [''a'', ''b'']) :: rat)) = 50"
    using percent_examples(9) unfolding len by (simp add: exactPercent_def)
  have lp: "handleLoop world_c6 STICKER [''a'', ''b''] 0 (begin_run initial) = (None, state_c6)"
    using handleLoop_advance[OF le0 l2 world_c6_facts(1), of "begin_run initial"]
    unfolding state_c6_def[symmetric] by (simp add: handleLoop_done)
  show ?thesis
    unfolding n p r using world_c6_facts(2) lp n p by simp
qed

text \<open>
  C8. In a run over the variations \<open>vs\<close>, let \<open>S\<close> be the values the run gives to \<open>setAssets\<close>,
  one for each item processed. The \<open>k\<close>-th value holds, in front of the assets that were
  there before the run, the assets of the items \<open>0, \<dots>, k\<close> whose fetch succeeded and no
  other, the newest first; it is the value of \<open>assets\<close> in the state from which the loop
  goes on to item \<open>k + 1\<close>, so it is there before the next fetch starts. Each value is the
  one before with the asset of the next item, if any, put in front: nothing is moved or
  taken away. The run's own list \<open>newAssets\<close> holds these assets in the order of the
  prompts, and \<open>assets\<close> ends as the reverse of it before the earlier assets.
\<close>

theorem assets_visible_in_arrival_order:
  assumes "expanded w bp = Inr vs"
  shows "let fin = handleGenerate w bp type st;
             S = drop (length (assetsLog st)) (assetsLog fin)
         in length S \<le> length vs \<and>
            (\<forall>k<length S.
               S ! k = rev (concat (map (got w type vs) [0..<Suc k])) @ assets st \<and>
               assets (advance w type vs 0 (Suc k) (begin_run st)) = S ! k \<and>
               handleLoop w type vs 0 (begin_run st) =
                 handleLoop w type vs (Suc k) (advance w type vs 0 (Suc k) (begin_run st))) \<and>
            (\<forall>k. Suc k < length S \<longrightarrow> S ! Suc k = got w type vs (Suc k) @ S ! k) \<and>
            newAssets fin = concat (map (got w type vs) [0..<length S]) \<and>
            assets fin = rev (newAssets fin) @ assets st"
proof -
  define fin where "fin = handleGenerate w bp type st"
  define S where "S = drop (length (assetsLog st)) (assetsLog fin)"
  define F where "F = (\<lambda>k. rev (concat (map (got w type vs) [0..<Suc k])) @ assets st)"
  obtain m where m: "m \<le> length vs" "\<forall>k<m. \<not> abortsAt w type vs k"
    "newAssets fin = concat (map (got w type vs) [0..<m])"
    "assets fin = rev (concat (map (got w type vs) [0..<m])) @ assets st"
    "assetsLog fin = assetsLog st @ map F [0..<m]"
    using run_shape[OF assms, of type st] unfolding fin_def F_def by blast
  have S: "S = map F [0..<m]" unfolding S_def m(5) by simp
  have lS: "length S = m" by (simp add: S)
  have c1: "length S \<le> length vs" using lS m(1) by simp
  have c2: "\<forall>k<length S.
               S ! k = rev (concat (map (got w type vs) [0..<Suc k])) @ assets st \<and>
               assets (advance w type vs 0 (Suc k) (begin_run st)) = S ! k \<and>
               handleLoop w type vs 0 (begin_run st) =
                 handleLoop w type vs (Suc k) (advance w type vs 0 (Suc k) (begin_run st))"
  proof (intro allI impI)
    fix k assume "k < length S"
    then have km: "k < m" using lS by simp
    have sk: "S ! k = F k" using km by (simp add: S)
    have il: "Suc k \<le> length vs" using km m(1) by simp
    have na: "\<forall>j. 0 \<le> j \<and> j < Suc k \<longrightarrow> \<not> abortsAt w type vs j" using m(2) km by simp
    have a: "assets (advance w type vs 0 (Suc k) (begin_run st)) = F k"
      using advance_fields[OF le0 il na, of "begin_run st"]
      by (simp add: F_def begin_run_fields)
    have l: "handleLoop w type vs 0 (begin_run st) =
        handleLoop w type vs (Suc k) (advance w type vs 0 (Suc k) (begin_run st))"
      by (rule handleLoop_advance[OF le0 il na])
    show "S ! k = rev (concat (map (got w type vs) [0..<Suc k])) @ assets st \<and>
          assets (advance w type vs 0 (Suc k) (begin_run st)) = S ! k \<and>
          handleLoop w type vs 0 (begin_run st) =
            handleLoop w type vs (Suc k) (advance w type vs 0 (Suc k) (begin_run st))"
      using sk a l by (simp add: F_def)
  qed
  have c3: "\<forall>k. Suc k < length S \<longrightarrow> S ! Suc k = got w type vs (Suc k) @ S ! k"
  proof (intro allI impI)
    fix k assume "Suc k < length S"
    then have km: "Suc k < m" using lS by simp
    have "F (Suc k) = got w type vs (Suc k) @ F k" by (simp add: F_def got_le1)
    then show "S ! Suc k = got w type vs (Suc k) @ S ! k" using km by (simp add: S)
  qed
  have c4: "newAssets fin = concat (map (got w type vs) [0..<length S])" using m(3) lS by simp
  have c5: "assets fin = rev (newAssets fin) @ assets st" using m(3,4) by simp
  show ?thesis
    unfolding Let_def fin_def[symmetric] S_def[symmetric] by (intro conjI c1 c2 c3 c4 c5)
qed

theorem assets_visible_in_arrival_order_witness:
  "map (map prompt) (assetsLog (handleGenerate world_c8 ''cat'' STICKER initial)) =
     [[''a''], [''a''], [''c'', ''a'']] \<and>
   map prompt (newAssets (handleGenerate world_c8 ''cat'' STICKER initial)) = [''a'', ''c''] \<and>
   assets (handleGenerate world_c8 ''cat'' STICKER initial) =
     rev (newAssets (handleGenerate world_c8 ''cat'' STICKER initial))"
proof -
  have h1: "expanded world_c8 ''cat'' = Inr [''a'', ''b'', ''c'']"
    by (simp add: world_c8_def sampleWorld_expanded)
  have f: "fetch_c8 0 = Inr ''url''" "fetch_c8 1 = Inl badRequest" "fetch_c8 2 = Inr ''url''"
    by (simp_all add: fetch_c8_def)
  have na: "\<forall>k<length [''a'', ''b'', ''c'']. \<not> abortsAt world_c8 STICKER [''a'', ''b'', ''c''] k"
  proof (intro allI impI)
    fix k :: nat assume "k < length [''a'', ''b'', ''c'']"
    then have "k = 0 \<or> k = 1 \<or> k = 2" by auto
    then show "\<not> abortsAt world_c8 STICKER [''a'', ''b'', ''c''] k"
      using sample_abortsAt(1)[of fetch_c8 0 "''url''"] sample_abortsAt(1)[of fetch_c8 2 "''url''"]
        sample_abortsAt(2)[of fetch_c8 1 badRequest] f sample_errors(2)
      by (auto simp: world_c8_def)
  qed
  have g: "map prompt (got world_c8 STICKER [''a'', ''b'', ''c''] 0) = [''a'']"
    "got world_c8 STICKER [''a'', ''b'', ''c''] 1 = []"
    "map prompt (got world_c8 STICKER [''a'', ''b'', ''c''] 2) = [''c'']"
    unfolding world_c8_def
    using sample_got(1)[of fetch_c8 0 "''url''"] sample_got(1)[of fetch_c8 2 "''url''"]
      sample_got(2)[of fetch_c8 1 badRequest] f sample_errors(2)
    by simp_all
  have up: "[0..<length [''a'', ''b'', ''c'']] = [0, 1, 2]" by (simp add: upt_conv_Cons)
  note R = run_completed_fields[OF h1 na, of initial]
  have ev1: "map (map prompt) (assetsLog (handleGenerate world_c8 ''cat'' STICKER initial)) =
     [[''a''], [''a''], [''c'', ''a'']]"
    unfolding R(4) up using g by (simp add: initial_def upt_conv_Cons got_le1)
  have ev2: "map prompt (newAssets (handleGenerate world_c8 ''cat'' STICKER initial)) = [''a'', ''c'']"
    unfolding R(2) up using g by simp
  have T: "assets (handleGenerate world_c8 ''cat'' STICKER initial) =
      rev (newAssets (handleGenerate world_c8 ''cat'' STICKER initial)) @ assets initial"
    using assets_visible_in_arrival_order[OF h1, of STICKER initial] unfolding Let_def by blast
  show ?thesis using ev1 ev2 T by (simp add: initial_def)
qed

section \<open>The variation expander\<close>

lemma withRetry_last:
  "0 < maxRetries \<Longrightarrow>
   outcome (withRetry fn rnd maxRetries d) = fn (calls (withRetry fn rnd maxRetries d) - 1)"
  using retryLoop_props[of 0 maxRetries fn rnd d "[]"] unfolding withRetry_def Let_def by blast

lemma withRetry_first_success:
  assumes "k < maxRetries" and "\<not> retriable (fn k)" and "\<forall>j<k. retriable (fn j)"
  shows "calls (withRetry fn rnd maxRetries d) = Suc k"
    and "outcome (withRetry fn rnd maxRetries d) = fn k"
proof -
  define r where "r = withRetry fn rnd maxRetries d"
  have pos: "0 < maxRetries" using assms(1) by simp
  have P: "0 < calls r" "calls r \<le> maxRetries" "outcome r = fn (calls r - 1)"
    "\<forall>j. 0 \<le> j \<and> j + 1 < calls r \<longrightarrow> retriable (fn j)"
    "calls r < maxRetries \<longrightarrow> \<not> retriable (fn (calls r - 1))"
    using retryLoop_props[OF pos, of fn rnd d "[]"] unfolding r_def withRetry_def Let_def
    by blast+
  have "calls r = Suc k"
  proof (rule ccontr)
    assume ne: "calls r \<noteq> Suc k"
    show False
    proof (cases "calls r < Suc k")
      case True
      then have "calls r - 1 < k" using P(1) by simp
      moreover have "calls r < maxRetries" using True assms(1) by simp
      ultimately show False using P(5) assms(3) by blast
    next
      case False
      then have "k + 1 < calls r" using ne by simp
      then show False using P(4) assms(2) by blast
    qed
  qed
  then show "calls (withRetry fn rnd maxRetries d) = Suc k"
    and "outcome (withRetry fn rnd maxRetries d) = fn k"
    using P(3) unfolding r_def by simp_all
qed

lemma parseVariations_cases:
  "jp (payload text) = None \<Longrightarrow> parseVariations jp bp count text = replicate count bp"
  "jp (payload text) = Some [] \<Longrightarrow> parseVariations jp bp count text = [bp]"
  "jp (payload text) = Some (v # vs) \<Longrightarrow> parseVariations jp bp count text = v # vs"
  by (simp_all add: parseVariations_def)

lemma parseVariations_nonempty: "1 \<le> count \<Longrightarrow> parseVariations jp bp count text \<noteq> []"
  by (auto simp: parseVariations_def split: option.splits)

lemma expanded_last:
  assumes "aiCall w (calls (generatePromptVariations (aiCall w) (jsonParse w) (random w) bp 20) - 1)
     = Inr text"
  shows "expanded w bp = Inr (parseVariations (jsonParse w) bp 20 text)"
  using assms
    withRetry_last[of 5 "\<lambda>k. case aiCall w k of Inl e \<Rightarrow> Inl e
       | Inr text \<Rightarrow> Inr (parseVariations (jsonParse w) bp 20 text)" "random w" 4000]
  by (simp add: expanded_def generatePromptVariations_def)

lemma expanded_nonempty: "expanded w bp = Inr vs \<Longrightarrow> vs \<noteq> []"
proof -
  assume a: "expanded w bp = Inr vs"
  define fn where "fn = (\<lambda>k. case aiCall w k of Inl e \<Rightarrow> Inl e
       | Inr text \<Rightarrow> Inr (parseVariations (jsonParse w) bp 20 text))"
  have "outcome (withRetry fn (random w) 5 4000) = fn (calls (withRetry fn (random w) 5 4000) - 1)"
    by (rule withRetry_last) simp
  then have "fn (calls (withRetry fn (random w) 5 4000) - 1) = Inr vs"
    using a by (simp add: expanded_def generatePromptVariations_def fn_def)
  then obtain t where "vs = parseVariations (jsonParse w) bp 20 t"
    by (auto simp: fn_def split: sum.splits)
  then show "vs \<noteq> []" using parseVariations_nonempty[of 20] by simp
qed

text \<open>The fetches of a run are those of the items \<open>0, \<dots>, f - 1\<close> for some \<open>f\<close>.\<close>

lemma fetchLog_shape:
  assumes "expanded w bp = Inr vs"
  shows "\<exists>f. f \<le> length vs \<and> ((\<forall>k<length vs. \<not> abortsAt w type vs k) \<longrightarrow> f = length vs) \<and>
     1 \<le> f \<and>
     fetchLog (handleGenerate w bp type st) = fetchLog st @ map (\<lambda>k. (k, vs ! k)) [0..<f]"
proof -
  have ne: "0 < length vs" using expanded_nonempty[OF assms] by simp
  obtain m f where mf: "m \<le> length vs" "\<forall>k<m. \<not> abortsAt w type vs k"
    "m \<le> f" "f \<le> length vs" "m = length vs \<or> f = Suc m"
    "fetchLog (handleGenerate w bp type st) = fetchLog st @ map (\<lambda>k. (k, vs ! k)) [0..<f]"
    using run_shape[OF assms, of type st] by blast
  have "(\<forall>k<length vs. \<not> abortsAt w type vs k) \<longrightarrow> f = length vs"
  proof
    assume na: "\<forall>k<length vs. \<not> abortsAt w type vs k"
    show "f = length vs"
    proof (rule ccontr)
      assume "f \<noteq> length vs"
      have "fetchLog st @ map (\<lambda>k. (k, vs ! k)) [0..<f] =
          fetchLog st @ map (\<lambda>k. (k, vs ! k)) [0..<length vs]"
        using run_completed_fields(1)[OF assms na, of st] mf(6) by (simp only:)
      then have "map (\<lambda>k. (k, vs ! k)) [0..<f] = map (\<lambda>k. (k, vs ! k)) [0..<length vs]"
        by (simp only: same_append_eq)
      then have "length (map (\<lambda>k. (k, vs ! k)) [0..<f]) =
          length (map (\<lambda>k. (k, vs ! k)) [0..<length vs])"
        by (rule arg_cong)
      then have "f = length vs" by simp
      then show False using \<open>f \<noteq> length vs\<close> by simp
    qed
  qed
  moreover have "1 \<le> f"
  proof (cases "m = length vs")
    case True
    then show ?thesis using mf(3) ne by linarith
  next
    case False
    then show ?thesis using mf(5) by simp
  qed
  ultimately show ?thesis using mf(4,6) by blast
qed

lemma sampleWorld_expanded_any:
  "expanded (sampleWorld p f) bp =
     Inr (parseVariations (\<lambda>s. p) bp 20 (Some ''payload''))"
  by (simp add: expanded_def generatePromptVariations_def withRetry_def retryLoop.simps
      sampleWorld_def)

text \<open>
  C1 (as amended). Let \<open>t\<close> be the text of the response of the last AI call of the
  expander. If parsing the payload fails, the expander returns 20 copies of the base
  prompt: every fetch of the run uses the base prompt, there are at most 20 of them,
  and exactly 20 if none stops the run. If parsing yields an empty array, the expander
  returns the base prompt once, and the run makes one fetch, with the base prompt.
\<close>

theorem fallback_variations:
  assumes "aiCall w (calls (generatePromptVariations (aiCall w) (jsonParse w) (random w) bp 20) - 1)
     = Inr t"
  shows "(jsonParse w (payload t) = None \<longrightarrow>
       parseVariations (jsonParse w) bp 20 t = replicate 20 bp \<and>
       expanded w bp = Inr (replicate 20 bp) \<and>
       (\<forall>x\<in>set (drop (length (fetchLog st)) (fetchLog (handleGenerate w bp type st))). snd x = bp) \<and>
       length (fetchLog (handleGenerate w bp type st)) \<le> length (fetchLog st) + 20 \<and>
       ((\<forall>k<20. \<not> abortsAt w type (replicate 20 bp) k) \<longrightarrow>
          length (fetchLog (handleGenerate w bp type st)) = length (fetchLog st) + 20)) \<and>
     (jsonParse w (payload t) = Some [] \<longrightarrow>
       parseVariations (jsonParse w) bp 20 t = [bp] \<and>
       expanded w bp = Inr [bp] \<and>
       fetchLog (handleGenerate w bp type st) = fetchLog st @ [(0, bp)])"
proof (intro conjI impI)
  assume n: "jsonParse w (payload t) = None"
  show pv: "parseVariations (jsonParse w) bp 20 t = replicate 20 bp"
    using n by (simp add: parseVariations_def)
  show ex: "expanded w bp = Inr (replicate 20 bp)"
    using expanded_last[OF assms] pv by simp
  obtain f where f: "f \<le> length (replicate 20 bp)"
    "(\<forall>k<length (replicate 20 bp). \<not> abortsAt w type (replicate 20 bp) k)
       \<longrightarrow> f = length (replicate 20 bp)"
    "fetchLog (handleGenerate w bp type st) =
       fetchLog st @ map (\<lambda>k. (k, replicate 20 bp ! k)) [0..<f]"
    using fetchLog_shape[OF ex, of type st] by blast
  show "\<forall>x\<in>set (drop (length (fetchLog st)) (fetchLog (handleGenerate w bp type st))). snd x = bp"
    using f(1) by (auto simp: f(3))
  show "length (fetchLog (handleGenerate w bp type st)) \<le> length (fetchLog st) + 20"
    using f(1) by (simp add: f(3))
  show "length (fetchLog (handleGenerate w bp type st)) = length (fetchLog st) + 20"
    if "\<forall>k<20. \<not> abortsAt w type (replicate 20 bp) k"
    using f(2) that by (simp add: f(3))
next
  assume e: "jsonParse w (payload t) = Some []"
  show pv: "parseVariations (jsonParse w) bp 20 t = [bp]"
    using e by (simp add: parseVariations_def)
  show ex: "expanded w bp = Inr [bp]"
    using expanded_last[OF assms] pv by simp
  obtain f where f: "f \<le> length [bp]" "1 \<le> f"
    "fetchLog (handleGenerate w bp type st) =
       fetchLog st @ map (\<lambda>k. (k, [bp] ! k)) [0..<f]"
    using fetchLog_shape[OF ex, of type st] by blast
  have "f = 1" using f(1,2) by simp
  then show "fetchLog (handleGenerate w bp type st) = fetchLog st @ [(0, bp)]"
    using f(3) by simp
qed

theorem fallback_variations_witness:
  "expanded world_c1w ''cat'' = Inr (replicate 20 ''cat'') \<and>
   length (fetchLog (handleGenerate world_c1w ''cat'' STICKER initial)) = 20 \<and>
   parseVariations parseEmpty ''cat'' 20 None = [''cat'']"
proof -
  have a: "aiCall world_c1w
      (calls (generatePromptVariations (aiCall world_c1w) (jsonParse world_c1w)
         (random world_c1w) ''cat'' 20) - 1) = Inr (Some ''payload'')"
    by (simp add: world_c1w_def sampleWorld_def)
  have n: "jsonParse world_c1w (payload (Some ''payload'')) = None"
    by (simp add: world_c1w_def sampleWorld_def)
  have na: "\<forall>k<20. \<not> abortsAt world_c1w STICKER (replicate 20 ''cat'') k"
    by (simp add: world_c1w_def sample_abortsAt(1)[of _ _ "''url''"] fetch_ok_def)
  have T: "expanded world_c1w ''cat'' = Inr (replicate 20 ''cat'')"
    "length (fetchLog (handleGenerate world_c1w ''cat'' STICKER initial)) =
       length (fetchLog initial) + 20"
    using fallback_variations[OF a, where type = STICKER and st = initial] n na by blast+
  have p: "parseVariations parseEmpty ''cat'' 20 None = [''cat'']"
    by (simp add: parseVariations_def payload_def parseEmpty_def)
  show ?thesis using T p by (simp add: initial_def)
qed

text \<open>
  An empty array is replaced by one copy of the base prompt, not by 20: the run makes
  one fetch.
\<close>

theorem empty_payload_counterexample:
  "jsonParse world_c1 (payload (Some ''payload'')) = Some [] \<and>
   expanded world_c1 ''cat'' = Inr [''cat''] \<and>
   expanded world_c1 ''cat'' \<noteq> Inr (replicate 20 ''cat'') \<and>
   fetchLog (handleGenerate world_c1 ''cat'' STICKER initial) = [(0, ''cat'')] \<and>
   length (fetchLog (handleGenerate world_c1 ''cat'' STICKER initial)) \<noteq> 20"
proof -
  have e: "jsonParse world_c1 (payload (Some ''payload'')) = Some []"
    by (simp add: world_c1_def sampleWorld_def)
  have ex: "expanded world_c1 ''cat'' = Inr [''cat'']"
    unfolding world_c1_def sampleWorld_expanded_any by (simp add: parseVariations_def)
  have na: "\<forall>k<length [''cat'']. \<not> abortsAt world_c1 STICKER [''cat''] k"
    by (simp add: world_c1_def sample_abortsAt(1)[of _ _ "''url''"] fetch_ok_def)
  have fl: "fetchLog (handleGenerate world_c1 ''cat'' STICKER initial) = [(0, ''cat'')]"
    using run_completed_fields(1)[OF ex na, of initial] by (simp add: initial_def)
  have ne: "[''cat''] \<noteq> replicate 20 ''cat''"
  proof
    assume "[''cat''] = replicate 20 ''cat''"
    then have "length [''cat''] = length (replicate 20 ''cat'')" by (rule arg_cong)
    then show False by simp
  qed
  show ?thesis using e ex fl ne by simp
qed

text \<open>
  C10. For a count of at least 1 the body after the AI call returns a sequence that is
  not empty: the parsed array, the base prompt alone, or \<open>count\<close> copies of it. So
  whatever \<open>generatePromptVariations\<close> returns is not empty, and it does return the body's
  result for the first AI call that succeeds, when that is one of the five attempts and
  the calls before it failed with errors that are retried. The sequence the orchestrator
  loops over, and divides by the length of, has at least one prompt.
\<close>

theorem variations_nonempty:
  assumes "1 \<le> count"
  shows "parseVariations jp bp count t \<noteq> [] \<and>
     (jp (payload t) = Some (parseVariations jp bp count t) \<or>
      parseVariations jp bp count t = [bp] \<or>
      parseVariations jp bp count t = replicate count bp) \<and>
     (\<forall>vs. outcome (generatePromptVariations ai jp rnd bp count) = Inr vs \<longrightarrow> vs \<noteq> []) \<and>
     (\<forall>k u. k < 5 \<and> ai k = Inr u \<and> (\<forall>j<k. retriable (ai j)) \<longrightarrow>
        outcome (generatePromptVariations ai jp rnd bp count) =
          Inr (parseVariations jp bp count u)) \<and>
     (\<forall>vs. expanded w bp = Inr vs \<longrightarrow> 0 < length vs)"
proof -
  define fn where "fn = (\<lambda>k. case ai k of Inl e \<Rightarrow> Inl e
       | Inr u \<Rightarrow> Inr (parseVariations jp bp count u))"
  have G: "generatePromptVariations ai jp rnd bp count = withRetry fn rnd 5 4000"
    by (simp add: generatePromptVariations_def fn_def)
  have c1: "parseVariations jp bp count t \<noteq> []"
    by (rule parseVariations_nonempty[OF assms])
  have c2: "jp (payload t) = Some (parseVariations jp bp count t) \<or>
      parseVariations jp bp count t = [bp] \<or>
      parseVariations jp bp count t = replicate count bp"
    by (auto simp: parseVariations_def split: option.splits)
  have c3: "\<forall>vs. outcome (generatePromptVariations ai jp rnd bp count) = Inr vs \<longrightarrow> vs \<noteq> []"
  proof (intro allI impI)
    fix vs assume a: "outcome (generatePromptVariations ai jp rnd bp count) = Inr vs"
    have "outcome (withRetry fn rnd 5 4000) = fn (calls (withRetry fn rnd 5 4000) - 1)"
      by (rule withRetry_last) simp
    then have "fn (calls (withRetry fn rnd 5 4000) - 1) = Inr vs" using a G by simp
    then obtain u where "vs = parseVariations jp bp count u"
      by (auto simp: fn_def split: sum.splits)
    then show "vs \<noteq> []" using parseVariations_nonempty[OF assms] by simp
  qed
  have c4: "\<forall>k u. k < 5 \<and> ai k = Inr u \<and> (\<forall>j<k. retriable (ai j)) \<longrightarrow>
        outcome (generatePromptVariations ai jp rnd bp count) =
          Inr (parseVariations jp bp count u)"
  proof (intro allI impI)
    fix k u assume a: "k < 5 \<and> ai k = Inr u \<and> (\<forall>j<k. retriable (ai j))"
    have fk: "fn k = Inr (parseVariations jp bp count u)" using a by (simp add: fn_def)
    then have nr: "\<not> retriable (fn k)" by (simp add: retriable_def)
    have rj: "\<forall>j<k. retriable (fn j)"
    proof (intro allI impI)
      fix j assume "j < k"
      then have "retriable (ai j)" using a by simp
      then show "retriable (fn j)" by (cases "ai j") (simp_all add: retriable_def fn_def)
    qed
    have "outcome (withRetry fn rnd 5 4000) = fn k"
      using withRetry_first_success(2)[of k 5 fn rnd 4000] a nr rj by simp
    then show "outcome (generatePromptVariations ai jp rnd bp count) =
          Inr (parseVariations jp bp count u)" using G fk by simp
  qed
  have c5: "\<forall>vs. expanded w bp = Inr vs \<longrightarrow> 0 < length vs"
    using expanded_nonempty by auto
  show ?thesis by (intro conjI c1 c2 c3 c4 c5)
qed

theorem variations_nonempty_witness:
  "parseVariations parseEmpty ''cat'' 20 (Some ''not json'') = replicate 20 ''cat'' \<and>
   parseVariations parseEmpty ''cat'' 20 (Some ''not json'') \<noteq> [] \<and>
   outcome (generatePromptVariations aiSecond parseEmpty half ''cat'' 20) = Inr [''cat'']"
proof -
  have h: "(1::nat) \<le> 20" by simp
  have p: "parseVariations parseEmpty ''cat'' 20 (Some ''not json'') = replicate 20 ''cat''"
    by (simp add: parseVariations_def payload_def parseEmpty_def)
  have q: "parseVariations parseEmpty ''cat'' 20 None = [''cat'']"
    by (simp add: parseVariations_def payload_def parseEmpty_def)
  have s: "(1::nat) < 5 \<and> aiSecond 1 = Inr None \<and> (\<forall>j<1. retriable (aiSecond j))"
    by (simp add: aiSecond_def retriable_def flaky_facts)
  have T: "parseVariations parseEmpty ''cat'' 20 (Some ''not json'') \<noteq> []"
    "\<forall>k u. k < 5 \<and> aiSecond k = Inr u \<and> (\<forall>j<k. retriable (aiSecond j)) \<longrightarrow>
        outcome (generatePromptVariations aiSecond parseEmpty half ''cat'' 20) =
          Inr (parseVariations parseEmpty ''cat'' 20 u)"
    using variations_nonempty[OF h, of parseEmpty "''cat''" "Some ''not json''" aiSecond half]
    by blast+
  have o: "outcome (generatePromptVariations aiSecond parseEmpty half ''cat'' 20) =
      Inr (parseVariations parseEmpty ''cat'' 20 None)"
    using T(2) s by blast
  show ?thesis using p T(1) o q by simp
qed

end
